theory Spec2Isabelle
  imports
    Complex_Main
    "HOL-Library.Char_ord"
    "HOL-Library.List_Lexorder"
    "HOL-Library.Product_Lexorder"
    "HOL-Library.Sublist"
    "HOL-Library.Multiset"
begin

section \<open>Strings\<close>

text \<open>
  A Python \<open>str\<close> is a sequence of code points. The model uses \<^typ>\<open>string\<close>, whose
  characters are read as the code points below 256 (Latin-1), so every definition below is
  exact for strings over that alphabet. List_Lexorder together with Char_ord compares such
  strings as Python does: code point by code point, a proper prefix being smaller.

  \<open>str.lower()\<close> on this alphabet adds 32 to \<open>A\<close>..\<open>Z\<close> and to the capital letters
  U+00C0..U+00DE (the multiplication sign U+00D7 apart) and leaves every other code point alone.
\<close>

definition lower_char :: "char \<Rightarrow> char" where
  "lower_char c =
     (let n = (of_char c :: nat) in
      if (65 \<le> n \<and> n \<le> 90) \<or> (192 \<le> n \<and> n \<le> 214) \<or> (216 \<le> n \<and> n \<le> 222)
      then char_of (n + 32) else c)"

definition lower :: "string \<Rightarrow> string" where
  "lower s = map lower_char s"

text \<open>\<open>k.startswith(p)\<close>: the first \<open>len(p)\<close> characters of \<open>k\<close> are \<open>p\<close>.\<close>

definition startswith :: "string \<Rightarrow> string \<Rightarrow> bool" where
  "startswith k p = (take (length p) k = p)"

section \<open>The built-in \<open>dict\<close>\<close>

text \<open>
  A Python \<open>dict\<close> of \<open>str\<close> to \<open>str\<close> keeps its keys unique and iterates in insertion
  order; \<open>define\<close>, \<open>remove\<close> and \<open>suggest\<close> depend on that order, so the model is an
  association list whose keys are distinct (\<open>wf_dict\<close>).
\<close>

type_synonym pydict = "(string \<times> string) list"

datatype error = KeyError | ValueError | OSError | UnicodeDecodeError | JSONDecodeError

definition wf_dict :: "pydict \<Rightarrow> bool" where
  "wf_dict d = distinct (map fst d)"

definition dict_keys :: "pydict \<Rightarrow> string list" where
  "dict_keys d = map fst d"

definition dict_contains :: "pydict \<Rightarrow> string \<Rightarrow> bool" where
  "dict_contains d k = (k \<in> set (dict_keys d))"

definition dict_get :: "pydict \<Rightarrow> string \<Rightarrow> string option" where
  "dict_get d k = map_of d k"

text \<open>\<open>d[k] = v\<close>: an existing key keeps its place and gets the new value, a new key goes last.\<close>

fun dict_setitem :: "pydict \<Rightarrow> string \<Rightarrow> string \<Rightarrow> pydict" where
  "dict_setitem [] k v = [(k, v)]"
| "dict_setitem ((k', v') # d) k v =
     (if k' = k then (k, v) # d else (k', v') # dict_setitem d k v)"

text \<open>\<open>del d[k]\<close> raises \<open>KeyError\<close> when the key is missing.\<close>

fun dict_delitem :: "pydict \<Rightarrow> string \<Rightarrow> error + pydict" where
  "dict_delitem [] k = Inl KeyError"
| "dict_delitem ((k', v') # d) k =
     (if k' = k then Inr d
      else (case dict_delitem d k of Inl e \<Rightarrow> Inl e | Inr d' \<Rightarrow> Inr ((k', v') # d')))"

text \<open>\<open>d.pop(k, None)\<close>: the value and the dictionary without the key, or \<open>None\<close>.\<close>

definition dict_pop :: "pydict \<Rightarrow> string \<Rightarrow> string option \<times> pydict" where
  "dict_pop d k =
     (case dict_delitem d k of Inl e \<Rightarrow> (None, d) | Inr d' \<Rightarrow> (dict_get d k, d'))"

section \<open>\<open>agentv3.DictionaryAgent\<close>\<close>

record agent_v3 =
  data :: pydict

definition BUILT_IN_DICT :: pydict where
  "BUILT_IN_DICT =
    [(''algorithm'', ''A step-by-step procedure for calculations or problem-solving.''),
     (''binary'', ''A system using two states often represented as 0 and 1.''),
     (''cache'', ''A hardware or software component that stores data so future requests for that data can be served faster.''),
     (''dictionary'', ''A data structure that maps keys to values; also a reference book of words and meanings.''),
     (''example'', ''A representative form or pattern used to illustrate a rule.''),
     (''function'', ''A named section of a program that performs a specific task.'')]"

text \<open>The loop of \<open>define\<close> over \<open>self.data.items()\<close>: the first key whose lower case is \<open>key\<close>.\<close>

fun define_loop :: "(string \<times> string) list \<Rightarrow> string \<Rightarrow> string option" where
  "define_loop [] key = None"
| "define_loop ((k, v) # items) key = (if lower k = key then Some v else define_loop items key)"

definition define_v3 :: "agent_v3 \<Rightarrow> string \<Rightarrow> bool \<Rightarrow> string option" where
  "define_v3 self word case_sensitive =
     (let key = (if case_sensitive then word else lower word) in
      if case_sensitive then dict_get (data self) key
      else define_loop (data self) key)"

definition add_v3 :: "agent_v3 \<Rightarrow> string \<Rightarrow> string \<Rightarrow> bool \<Rightarrow> bool \<times> agent_v3" where
  "add_v3 self word definition overwrite =
     (if dict_contains (data self) word \<and> \<not> overwrite then (False, self)
      else (True, self\<lparr>data := dict_setitem (data self) word definition\<rparr>))"

text \<open>
  The second half of \<open>remove\<close>: the loop over a copy of the keys, deleting the first key that
  equals \<open>word\<close> up to case. The dictionary is the one the loop started with, since the loop
  returns at its first deletion.
\<close>

fun remove_loop :: "pydict \<Rightarrow> string list \<Rightarrow> string \<Rightarrow> error + bool \<times> pydict" where
  "remove_loop d [] word = Inr (False, d)"
| "remove_loop d (k # ks) word =
     (if lower k = lower word
      then (case dict_delitem d k of Inl e \<Rightarrow> Inl e | Inr d' \<Rightarrow> Inr (True, d'))
      else remove_loop d ks word)"

definition remove_v3 :: "agent_v3 \<Rightarrow> string \<Rightarrow> error + bool \<times> agent_v3" where
  "remove_v3 self word =
     (if dict_contains (data self) word
      then (case dict_delitem (data self) word of
              Inl e \<Rightarrow> Inl e
            | Inr d' \<Rightarrow> Inr (True, self\<lparr>data := d'\<rparr>))
      else (case remove_loop (data self) (dict_keys (data self)) word of
              Inl e \<Rightarrow> Inl e
            | Inr (r, d') \<Rightarrow> Inr (r, self\<lparr>data := d'\<rparr>)))"

text \<open>
  \<open>list\<close>: \<open>sorted\<close> is a stable sort by the order of \<open>str\<close>; keys that compare equal are the
  same string, so it is the sorted list of the keys. \<open>if prefix:\<close> is false for \<open>None\<close> and for
  the empty string.
\<close>

definition list_v3 :: "agent_v3 \<Rightarrow> string option \<Rightarrow> string list" where
  "list_v3 self pfx =
     (let keys = sort (dict_keys (data self)) in
      case pfx of
        None \<Rightarrow> keys
      | Some p \<Rightarrow> if p \<noteq> [] then filter (\<lambda>k. startswith k p) keys else keys)"

section \<open>\<open>difflib.SequenceMatcher\<close>\<close>

text \<open>
  \<open>suggest\<close> calls \<open>difflib.get_close_matches\<close> of the Python standard library. This
  section follows \<open>difflib.py\<close> for the calls that \<open>get_close_matches\<close> makes: a
  \<open>SequenceMatcher\<close> with no \<open>isjunk\<close> function and \<open>autojunk\<close> left on, whose second
  sequence \<open>b\<close> is the query and whose first sequence \<open>a\<close> is the candidate. Positions in
  the sequences are natural numbers.

  \<open>__chain_b\<close>: \<open>b2j\<close> maps each element of \<open>b\<close> to the increasing list of its positions.
  There is no junk. When \<open>b\<close> has 200 elements or more, the elements that occur more than
  \<open>len(b) // 100 + 1\<close> times are popular and are removed from \<open>b2j\<close>.
\<close>

fun chain_b_loop :: "(char \<rightharpoonup> nat list) \<Rightarrow> nat \<Rightarrow> string \<Rightarrow> (char \<rightharpoonup> nat list)" where
  "chain_b_loop b2j i [] = b2j"
| "chain_b_loop b2j i (elt # rest) =
     chain_b_loop (b2j(elt \<mapsto> (case b2j elt of None \<Rightarrow> [] | Some indices \<Rightarrow> indices) @ [i]))
       (Suc i) rest"

definition chain_b :: "string \<Rightarrow> (char \<rightharpoonup> nat list)" where
  "chain_b b =
     (let b2j = chain_b_loop Map.empty 0 b; n = length b in
      if n \<ge> 200
      then (let ntest = n div 100 + 1 in
            (\<lambda>elt. case b2j elt of
                      None \<Rightarrow> None
                    | Some idxs \<Rightarrow> if length idxs > ntest then None else Some idxs))
      else b2j)"

text \<open>
  \<open>find_longest_match\<close>. \<open>j2len.get(j-1, 0)\<close> is 0 at \<open>j = 0\<close>, where the key would be
  \<open>-1\<close>. The inner loop runs over the positions \<open>j\<close> of \<open>a[i]\<close> in \<open>b\<close>: it skips those
  below \<open>blo\<close>, stops at the first one from \<open>bhi\<close> on, and records in \<open>newj2len\<close> the length
  \<open>k\<close> of the match that ends at \<open>a[i]\<close> and \<open>b[j]\<close>; a longer match than the best so far
  becomes the best, \<open>(i-k+1, j-k+1, k)\<close>. The outer loop runs over \<open>range(alo, ahi)\<close>.

  \<open>get_matching_blocks\<close> calls \<open>find_longest_match\<close> with \<open>alo \<le> ahi \<le> len(a)\<close> and
  \<open>blo \<le> bhi \<le> len(b)\<close> only. Every read \<open>a[...]\<close> and \<open>b[...]\<close> below comes after the
  test that its index is inside these bounds, so none is out of range.
\<close>

type_synonym match = "nat \<times> nat \<times> nat"

definition j2len_prev :: "(nat \<rightharpoonup> nat) \<Rightarrow> nat \<Rightarrow> nat" where
  "j2len_prev j2len j = (if j = 0 then 0 else (case j2len (j - 1) of None \<Rightarrow> 0 | Some l \<Rightarrow> l))"

fun flm_inner ::
  "nat list \<Rightarrow> nat \<Rightarrow> nat \<Rightarrow> nat \<Rightarrow> (nat \<rightharpoonup> nat) \<Rightarrow> (nat \<rightharpoonup> nat) \<Rightarrow> match
   \<Rightarrow> (nat \<rightharpoonup> nat) \<times> match" where
  "flm_inner [] i blo bhi j2len newj2len best = (newj2len, best)"
| "flm_inner (j # js) i blo bhi j2len newj2len (besti, bestj, bestsize) =
     (if j < blo then flm_inner js i blo bhi j2len newj2len (besti, bestj, bestsize)
      else if j \<ge> bhi then (newj2len, (besti, bestj, bestsize))
      else (let k = j2len_prev j2len j + 1
            in flm_inner js i blo bhi j2len (newj2len(j \<mapsto> k))
                 (if k > bestsize then (i + 1 - k, j + 1 - k, k) else (besti, bestj, bestsize))))"

fun flm_outer ::
  "string \<Rightarrow> (char \<rightharpoonup> nat list) \<Rightarrow> nat \<Rightarrow> nat \<Rightarrow> nat list \<Rightarrow> (nat \<rightharpoonup> nat) \<Rightarrow> match \<Rightarrow> match" where
  "flm_outer a b2j blo bhi [] j2len best = best"
| "flm_outer a b2j blo bhi (i # is) j2len best =
     (case flm_inner (case b2j (a ! i) of None \<Rightarrow> [] | Some js \<Rightarrow> js) i blo bhi j2len Map.empty best of
        (newj2len, best') \<Rightarrow> flm_outer a b2j blo bhi is newj2len best')"

text \<open>
  The four \<open>while\<close> loops that extend the best match, to the left and to the right, first over
  elements that are not junk (\<open>junk = False\<close>), then over junk (\<open>junk = True\<close>). \<open>bjunk\<close> is
  the set of junk elements, empty here, so the loops over junk never run.
\<close>

function extend_left ::
  "char set \<Rightarrow> bool \<Rightarrow> string \<Rightarrow> string \<Rightarrow> nat \<Rightarrow> nat \<Rightarrow> match \<Rightarrow> match" where
  "extend_left bjunk junk a b alo blo (besti, bestj, bestsize) =
     (if besti > alo \<and> bestj > blo \<and> (b ! (bestj - 1) \<in> bjunk) = junk
         \<and> a ! (besti - 1) = b ! (bestj - 1)
      then extend_left bjunk junk a b alo blo (besti - 1, bestj - 1, bestsize + 1)
      else (besti, bestj, bestsize))"
  by pat_completeness auto
termination
  by (relation "measure (\<lambda>(bjunk, junk, a, b, alo, blo, besti, bestj, bestsize). besti)") auto

function extend_right ::
  "char set \<Rightarrow> bool \<Rightarrow> string \<Rightarrow> string \<Rightarrow> nat \<Rightarrow> nat \<Rightarrow> match \<Rightarrow> match" where
  "extend_right bjunk junk a b ahi bhi (besti, bestj, bestsize) =
     (if besti + bestsize < ahi \<and> bestj + bestsize < bhi \<and> (b ! (bestj + bestsize) \<in> bjunk) = junk
         \<and> a ! (besti + bestsize) = b ! (bestj + bestsize)
      then extend_right bjunk junk a b ahi bhi (besti, bestj, bestsize + 1)
      else (besti, bestj, bestsize))"
  by pat_completeness auto
termination
  by (relation "measure (\<lambda>(bjunk, junk, a, b, ahi, bhi, besti, bestj, bestsize). ahi - (besti + bestsize))") auto

declare extend_left.simps [simp del] extend_right.simps [simp del]

definition find_longest_match ::
  "char set \<Rightarrow> (char \<rightharpoonup> nat list) \<Rightarrow> string \<Rightarrow> string \<Rightarrow> nat \<Rightarrow> nat \<Rightarrow> nat \<Rightarrow> nat \<Rightarrow> match" where
  "find_longest_match bjunk b2j a b alo ahi blo bhi =
     extend_right bjunk True a b ahi bhi
       (extend_left bjunk True a b alo blo
         (extend_right bjunk False a b ahi bhi
           (extend_left bjunk False a b alo blo
             (flm_outer a b2j blo bhi [alo..<ahi] Map.empty (alo, blo, 0)))))"


section \<open>Bounds of the longest match\<close>

text \<open>
  Whatever the arguments, the match that \<open>find_longest_match\<close> returns is the empty match at
  \<open>(alo, blo)\<close> or a non-empty match inside \<open>a[alo:ahi]\<close> and \<open>b[blo:bhi]\<close>. Entering row
  \<open>i\<close>, every length in \<open>j2len\<close> is at most \<open>i - alo\<close> and at most \<open>j + 1 - blo\<close>, so
  \<open>i - k + 1\<close> and \<open>j - k + 1\<close> never go below \<open>alo\<close> and \<open>blo\<close>.
\<close>

definition j2len_ok :: "nat \<Rightarrow> nat \<Rightarrow> nat \<Rightarrow> (nat \<rightharpoonup> nat) \<Rightarrow> bool" where
  "j2len_ok alo blo i j2len =
     (\<forall>j l. j2len j = Some l \<longrightarrow> 1 \<le> l \<and> l \<le> i - alo \<and> blo \<le> j \<and> l \<le> j + 1 - blo)"

definition best_ok :: "nat \<Rightarrow> nat \<Rightarrow> nat \<Rightarrow> nat \<Rightarrow> match \<Rightarrow> bool" where
  "best_ok alo ahi blo bhi best =
     (case best of (besti, bestj, bestsize) \<Rightarrow>
        best = (alo, blo, 0)
        \<or> (1 \<le> bestsize \<and> alo \<le> besti \<and> blo \<le> bestj
            \<and> besti + bestsize \<le> ahi \<and> bestj + bestsize \<le> bhi))"

lemma j2len_ok_empty: "j2len_ok alo blo i Map.empty"
  by (simp add: j2len_ok_def)

lemma flm_inner_bounds:
  assumes "alo \<le> i" and "i < ahi"
    and "j2len_ok alo blo i j2len"
    and "j2len_ok alo blo (Suc i) newj2len"
    and "best_ok alo ahi blo bhi best"
    and "flm_inner js i blo bhi j2len newj2len best = (n', best')"
  shows "j2len_ok alo blo (Suc i) n' \<and> best_ok alo ahi blo bhi best'"
  using assms(4-6)
proof (induction js arbitrary: newj2len best)
  case Nil
  then show ?case by simp
next
  case (Cons j js)
  obtain besti bestj bestsize where best: "best = (besti, bestj, bestsize)"
    by (cases best)
  show ?case
  proof (cases "j < blo")
    case True
    with Cons best show ?thesis by simp
  next
    case lo: False
    show ?thesis
    proof (cases "j \<ge> bhi")
      case True
      with Cons lo best show ?thesis by simp
    next
      case hi: False
      define k where "k = j2len_prev j2len j + 1"
      have k1: "1 \<le> k" by (simp add: k_def)
      have prev: "l \<le> i - alo \<and> blo \<le> j - 1 \<and> l \<le> j - blo" if "j \<noteq> 0" "j2len (j - 1) = Some l" for l
      proof -
        from assms(3) that(2) have "l \<le> i - alo" "blo \<le> j - 1" "l \<le> j - 1 + 1 - blo"
          by (auto simp: j2len_ok_def)
        with that(1) show ?thesis by simp
      qed
      have ka: "k \<le> Suc i - alo"
        using assms(1) prev by (auto simp: k_def j2len_prev_def split: option.splits)
      have kb: "k \<le> j + 1 - blo"
        using lo prev by (auto simp: k_def j2len_prev_def split: option.splits)
      let ?n = "newj2len(j \<mapsto> k)"
      let ?b = "if k > bestsize then (i + 1 - k, j + 1 - k, k) else (besti, bestj, bestsize)"
      have n_ok: "j2len_ok alo blo (Suc i) ?n"
        using Cons.prems(1) k1 ka kb lo by (auto simp: j2len_ok_def)
      have b_ok: "best_ok alo ahi blo bhi ?b"
        using Cons.prems(2) best k1 ka kb lo hi assms(1,2)
        by (auto simp: best_ok_def)
      have "flm_inner js i blo bhi j2len ?n ?b = (n', best')"
        using Cons.prems(3) lo hi best by (auto simp: k_def Let_def split: if_splits)
      from Cons.IH [OF n_ok b_ok this] show ?thesis .
    qed
  qed
qed

lemma flm_outer_bounds:
  assumes "alo \<le> i" and "j2len_ok alo blo i j2len" and "best_ok alo ahi blo bhi best"
  shows "best_ok alo ahi blo bhi (flm_outer a b2j blo bhi [i..<ahi] j2len best)"
  using assms
proof (induction "ahi - i" arbitrary: i j2len best)
  case 0
  then show ?case by simp
next
  case (Suc n)
  then have lt: "i < ahi" by simp
  then have range: "[i..<ahi] = i # [Suc i..<ahi]" by (simp add: upt_conv_Cons)
  obtain n' best' where
    inner: "flm_inner (case b2j (a ! i) of None \<Rightarrow> [] | Some js \<Rightarrow> js) i blo bhi j2len Map.empty best
            = (n', best')"
    by (cases "flm_inner (case b2j (a ! i) of None \<Rightarrow> [] | Some js \<Rightarrow> js) i blo bhi j2len Map.empty best")
  from flm_inner_bounds [OF Suc.prems(1) lt Suc.prems(2) j2len_ok_empty Suc.prems(3) inner]
  have ok: "j2len_ok alo blo (Suc i) n'" "best_ok alo ahi blo bhi best'" by simp_all
  from Suc.hyps(2) have "n = ahi - Suc i" by simp
  from Suc.hyps(1) [OF this _ ok] Suc.prems(1)
  have "best_ok alo ahi blo bhi (flm_outer a b2j blo bhi [Suc i..<ahi] n' best')" by simp
  with range inner show ?case by simp
qed

lemma extend_left_bounds:
  "best_ok alo ahi blo bhi best \<Longrightarrow> best_ok alo ahi blo bhi (extend_left bjunk junk a b alo blo best)"
proof (induction bjunk junk a b alo blo best rule: extend_left.induct)
  case (1 bjunk junk a b alo blo besti bestj bestsize)
  show ?case
  proof (cases "besti > alo \<and> bestj > blo \<and> (b ! (bestj - 1) \<in> bjunk) = junk
         \<and> a ! (besti - 1) = b ! (bestj - 1)")
    case True
    with 1(2) have "best_ok alo ahi blo bhi (besti - 1, bestj - 1, bestsize + 1)"
      by (auto simp: best_ok_def)
    with 1(1) True show ?thesis by (subst extend_left.simps) simp
  next
    case False
    with 1(2) show ?thesis by (subst extend_left.simps) auto
  qed
qed

lemma extend_right_bounds:
  "best_ok alo ahi blo bhi best \<Longrightarrow> best_ok alo ahi blo bhi (extend_right bjunk junk a b ahi bhi best)"
proof (induction bjunk junk a b ahi bhi best rule: extend_right.induct)
  case (1 bjunk junk a b ahi bhi besti bestj bestsize)
  show ?case
  proof (cases "besti + bestsize < ahi \<and> bestj + bestsize < bhi
         \<and> (b ! (bestj + bestsize) \<in> bjunk) = junk
         \<and> a ! (besti + bestsize) = b ! (bestj + bestsize)")
    case True
    with 1(2) have "best_ok alo ahi blo bhi (besti, bestj, bestsize + 1)"
      by (auto simp: best_ok_def)
    with 1(1) True show ?thesis by (subst extend_right.simps) simp
  next
    case False
    with 1(2) show ?thesis by (subst extend_right.simps) auto
  qed
qed

lemma find_longest_match_bounds:
  "best_ok alo ahi blo bhi (find_longest_match bjunk b2j a b alo ahi blo bhi)"
proof -
  have "best_ok alo ahi blo bhi (alo, blo, 0)" by (simp add: best_ok_def)
  then have "best_ok alo ahi blo bhi (flm_outer a b2j blo bhi [alo..<ahi] Map.empty (alo, blo, 0))"
    by (intro flm_outer_bounds j2len_ok_empty) simp_all
  then show ?thesis
    unfolding find_longest_match_def
    by (intro extend_right_bounds extend_left_bounds)
qed

lemma find_longest_match_size:
  assumes "find_longest_match bjunk b2j a b alo ahi blo bhi = (i, j, k)" and "k \<noteq> 0"
  shows "alo \<le> i \<and> i + k \<le> ahi \<and> blo \<le> j \<and> j + k \<le> bhi"
  using find_longest_match_bounds [of alo ahi blo bhi bjunk b2j a b] assms
  by (auto simp: best_ok_def)

section \<open>\<open>get_matching_blocks\<close>, the ratios and \<open>get_close_matches\<close>\<close>

text \<open>
  The loop of \<open>get_matching_blocks\<close> over its \<open>queue\<close>. The queue is used as a stack:
  \<open>queue.pop()\<close> takes the region appended last, which is the head of the list here. The loop
  ends because a non-empty match lies inside its region, so the regions put back are shorter.
\<close>

function matching_blocks_loop ::
  "char set \<Rightarrow> (char \<rightharpoonup> nat list) \<Rightarrow> string \<Rightarrow> string \<Rightarrow> (nat \<times> nat \<times> nat \<times> nat) list
   \<Rightarrow> match list \<Rightarrow> match list" where
  "matching_blocks_loop bjunk b2j a b [] matching_blocks = matching_blocks"
| "matching_blocks_loop bjunk b2j a b ((alo, ahi, blo, bhi) # queue) matching_blocks =
     (case find_longest_match bjunk b2j a b alo ahi blo bhi of
        (i, j, k) \<Rightarrow>
          if k \<noteq> 0
          then matching_blocks_loop bjunk b2j a b
                 ((if i + k < ahi \<and> j + k < bhi then [(i + k, ahi, j + k, bhi)] else [])
                  @ (if alo < i \<and> blo < j then [(alo, i, blo, j)] else [])
                  @ queue)
                 (matching_blocks @ [(i, j, k)])
          else matching_blocks_loop bjunk b2j a b queue matching_blocks)"
  by pat_completeness auto
termination
proof (relation "measure (\<lambda>(bjunk, b2j, a, b, queue, blocks).
          sum_list (map (\<lambda>(alo, ahi, blo, bhi). 2 * (ahi - alo) + 1) queue))", goal_cases)
  case 1
  then show ?case by simp
next
  case (2 bjunk b2j a b alo ahi blo bhi queue matching_blocks x1 x2 x1a x2a)
  then have "find_longest_match bjunk b2j a b alo ahi blo bhi = (x1, x1a, x2a)" by simp
  from find_longest_match_size [OF this] 2(3)
  have "alo \<le> x1 \<and> x1 + x2a \<le> ahi" by simp
  with 2(3) show ?case by auto
next
  case (3 bjunk b2j a b alo ahi blo bhi queue matching_blocks x1 x2 x1a x2a)
  then show ?case by simp
qed

text \<open>
  The blocks are then sorted, adjacent blocks are merged (\<open>collapse_loop\<close>, started from the
  dummy block \<open>(0, 0, 0)\<close>), and the sentinel \<open>(la, lb, 0)\<close> is appended.
\<close>

fun collapse_loop :: "match \<Rightarrow> match list \<Rightarrow> match list \<Rightarrow> match list" where
  "collapse_loop (i1, j1, k1) non_adjacent [] =
     (if k1 \<noteq> 0 then non_adjacent @ [(i1, j1, k1)] else non_adjacent)"
| "collapse_loop (i1, j1, k1) non_adjacent ((i2, j2, k2) # blocks) =
     (if i1 + k1 = i2 \<and> j1 + k1 = j2
      then collapse_loop (i1, j1, k1 + k2) non_adjacent blocks
      else collapse_loop (i2, j2, k2)
             (if k1 \<noteq> 0 then non_adjacent @ [(i1, j1, k1)] else non_adjacent) blocks)"

definition get_matching_blocks ::
  "char set \<Rightarrow> (char \<rightharpoonup> nat list) \<Rightarrow> string \<Rightarrow> string \<Rightarrow> match list" where
  "get_matching_blocks bjunk b2j a b =
     (let la = length a; lb = length b;
          matching_blocks = matching_blocks_loop bjunk b2j a b [(0, la, 0, lb)] [];
          non_adjacent = collapse_loop (0, 0, 0) [] (sort matching_blocks)
      in non_adjacent @ [(la, lb, 0)])"

text \<open>
  \<open>ratio\<close> is \<open>2.0 * M / T\<close>, a float, for \<open>M\<close> the total size of the matching blocks and
  \<open>T\<close> the total length. The model computes it as a rational number, and the cutoff \<open>0.4\<close> is
  \<open>2/5\<close>. The comparisons of \<open>get_close_matches\<close> on the floats agree with those on the
  rationals as long as \<open>T\<close> stays below \<open>2^26\<close>: rounding is monotone, \<open>2.0 * M / T\<close> and
  the literal \<open>0.4\<close> are the floats nearest to the rationals, and two different rationals of
  this form then differ by more than the spacing of the floats.
\<close>

definition calculate_ratio :: "nat \<Rightarrow> nat \<Rightarrow> rat" where
  "calculate_ratio matches len = (if len \<noteq> 0 then 2 * of_nat matches / of_nat len else 1)"

definition block_size :: "match \<Rightarrow> nat" where
  "block_size triple = (case triple of (i, j, k) \<Rightarrow> k)"

definition ratio :: "string \<Rightarrow> string \<Rightarrow> rat" where
  "ratio a b =
     (let matches = sum_list (map block_size (get_matching_blocks {} (chain_b b) a b))
      in calculate_ratio matches (length a + length b))"

text \<open>
  \<open>quick_ratio\<close>: \<open>fullbcount\<close> counts the elements of \<open>b\<close>; \<open>avail\<close> holds, for the elements
  seen in \<open>a\<close>, how many are left in \<open>b\<close>, and may go below zero. \<open>get0 m elt\<close> is
  \<open>m.get(elt, 0)\<close>.
\<close>

definition get0 :: "(char \<rightharpoonup> int) \<Rightarrow> char \<Rightarrow> int" where
  "get0 m elt = (case m elt of None \<Rightarrow> 0 | Some c \<Rightarrow> c)"

fun fullbcount_loop :: "(char \<rightharpoonup> int) \<Rightarrow> string \<Rightarrow> (char \<rightharpoonup> int)" where
  "fullbcount_loop fullbcount [] = fullbcount"
| "fullbcount_loop fullbcount (elt # rest) =
     fullbcount_loop (fullbcount(elt \<mapsto> get0 fullbcount elt + 1)) rest"

fun quick_ratio_loop :: "(char \<rightharpoonup> int) \<Rightarrow> (char \<rightharpoonup> int) \<Rightarrow> nat \<Rightarrow> string \<Rightarrow> nat" where
  "quick_ratio_loop fullbcount avail matches [] = matches"
| "quick_ratio_loop fullbcount avail matches (elt # rest) =
     (let numb = (case avail elt of Some n \<Rightarrow> n | None \<Rightarrow> get0 fullbcount elt)
      in quick_ratio_loop fullbcount (avail(elt \<mapsto> numb - 1))
           (if numb > 0 then matches + 1 else matches) rest)"

definition quick_ratio :: "string \<Rightarrow> string \<Rightarrow> rat" where
  "quick_ratio a b =
     calculate_ratio (quick_ratio_loop (fullbcount_loop Map.empty b) Map.empty 0 a)
       (length a + length b)"

definition real_quick_ratio :: "string \<Rightarrow> string \<Rightarrow> rat" where
  "real_quick_ratio a b = calculate_ratio (min (length a) (length b)) (length a + length b)"

text \<open>
  \<open>heapq.nlargest(n, result)\<close> is \<open>sorted(result, reverse=True)[:n]\<close>: its three branches
  (\<open>max\<close> for \<open>n = 1\<close>, \<open>sorted\<close> when \<open>n\<close> is at least the size, a heap otherwise) return
  the \<open>n\<close> largest elements, largest first. The elements are pairs of a score and a word,
  compared score first and word second; pairs that compare equal are the same pair, so sorting in
  reverse is the reverse of sorting.
\<close>

definition nlargest :: "int \<Rightarrow> ('a :: linorder) list \<Rightarrow> 'a list" where
  "nlargest n xs = take (nat n) (rev (sort xs))"

text \<open>
  \<open>get_close_matches\<close>: \<open>n\<close> must be positive and \<open>cutoff\<close> in \<open>[0, 1]\<close>, otherwise
  \<open>ValueError\<close>; the loop keeps the possibilities that pass the three tests, with their ratio.
\<close>

fun close_matches_loop :: "string \<Rightarrow> rat \<Rightarrow> string list \<Rightarrow> (rat \<times> string) list \<Rightarrow> (rat \<times> string) list" where
  "close_matches_loop word cutoff [] result = result"
| "close_matches_loop word cutoff (x # possibilities) result =
     close_matches_loop word cutoff possibilities
       (if real_quick_ratio x word \<ge> cutoff \<and> quick_ratio x word \<ge> cutoff \<and> ratio x word \<ge> cutoff
        then result @ [(ratio x word, x)] else result)"

definition get_close_matches :: "string \<Rightarrow> string list \<Rightarrow> int \<Rightarrow> rat \<Rightarrow> error + string list" where
  "get_close_matches word possibilities n cutoff =
     (if \<not> n > 0 then Inl ValueError
      else if \<not> (0 \<le> cutoff \<and> cutoff \<le> 1) then Inl ValueError
      else Inr (map snd (nlargest n (close_matches_loop word cutoff possibilities []))))"


text \<open>\<open>suggest\<close> of \<open>agentv3\<close>: the close matches of the query among the keys, with cutoff 0.4.\<close>

definition suggest :: "agent_v3 \<Rightarrow> string \<Rightarrow> int \<Rightarrow> error + string list" where
  "suggest self query max_results =
     (let keys = dict_keys (data self)
      in get_close_matches query keys max_results (2 / 5))"

section \<open>\<open>agent_ai_gen.DictionaryAgent\<close>: the in-memory operations\<close>

record agent_ai_gen =
  dict :: pydict
  storage_path :: string

definition lookup :: "agent_ai_gen \<Rightarrow> string \<Rightarrow> string option" where
  "lookup self word = dict_get (dict self) word"

definition add_gen :: "agent_ai_gen \<Rightarrow> string \<Rightarrow> string \<Rightarrow> bool \<Rightarrow> bool \<times> agent_ai_gen" where
  "add_gen self word definition overwrite =
     (if dict_contains (dict self) word \<and> \<not> overwrite then (False, self)
      else (True, self\<lparr>dict := dict_setitem (dict self) word definition\<rparr>))"

definition remove_gen :: "agent_ai_gen \<Rightarrow> string \<Rightarrow> bool \<times> agent_ai_gen" where
  "remove_gen self word =
     (case dict_pop (dict self) word of (r, d') \<Rightarrow> (r \<noteq> None, self\<lparr>dict := d'\<rparr>))"

definition list_words :: "agent_ai_gen \<Rightarrow> pydict" where
  "list_words self = dict self"

section \<open>Values read from a JSON document\<close>

text \<open>
  \<open>json.load\<close> returns \<open>None\<close>, a \<open>bool\<close>, an \<open>int\<close>, a \<open>float\<close>, a \<open>str\<close>, a
  \<open>list\<close> or a \<open>dict\<close> whose keys are \<open>str\<close>. A float is only ever turned into text by
  \<open>load\<close>, so it is represented by its \<open>repr\<close>.
\<close>

datatype pyvalue =
    PyNone
  | PyBool bool
  | PyInt int
  | PyFloat string
  | PyStr string
  | PyList "pyvalue list"
  | PyDict "(string \<times> pyvalue) list"

text \<open>The decimal digits of a natural number and of an integer, as \<open>repr\<close> writes them.\<close>

fun repr_nat :: "nat \<Rightarrow> string" where
  "repr_nat n =
     (if n < 10 then [char_of (48 + n)] else repr_nat (n div 10) @ [char_of (48 + n mod 10)])"

definition repr_int :: "int \<Rightarrow> string" where
  "repr_int i = (if i < 0 then CHR ''-'' # repr_nat (nat (- i)) else repr_nat (nat i))"

definition hexdigit :: "nat \<Rightarrow> char" where
  "hexdigit n = (if n < 10 then char_of (48 + n) else char_of (87 + n))"

text \<open>
  \<open>repr\<close> of a \<open>str\<close>: single quotes, unless the string has a single quote and no double
  quote; the quote and the backslash are escaped, tab, line feed and carriage return are
  written \<open>\t\<close>, \<open>\n\<close>, \<open>\r\<close>, and the code points that are not printable (below 32, 127 to
  160, and 173) are written \<open>\xhh\<close>.
\<close>

definition repr_char :: "char \<Rightarrow> char \<Rightarrow> string" where
  "repr_char quote c =
     (let n = (of_char c :: nat) in
      if c = quote \<or> n = 92 then [CHR 0x5C, c]
      else if n = 9 then [CHR 0x5C, CHR ''t'']
      else if n = 10 then [CHR 0x5C, CHR ''n'']
      else if n = 13 then [CHR 0x5C, CHR ''r'']
      else if n < 32 \<or> n = 127 then [CHR 0x5C, CHR ''x'', hexdigit (n div 16), hexdigit (n mod 16)]
      else if n < 127 then [c]
      else if n \<le> 160 \<or> n = 173 then [CHR 0x5C, CHR ''x'', hexdigit (n div 16), hexdigit (n mod 16)]
      else [c])"

definition repr_str :: "string \<Rightarrow> string" where
  "repr_str s =
     (let quote = (if CHR 0x27 \<in> set s \<and> CHR 0x22 \<notin> set s then CHR 0x22 else CHR 0x27)
      in [quote] @ concat (map (repr_char quote) s) @ [quote])"

text \<open>\<open>', '.join(parts)\<close>.\<close>

fun join_comma :: "string list \<Rightarrow> string" where
  "join_comma [] = []"
| "join_comma [x] = x"
| "join_comma (x # y # ys) = x @ '', '' @ join_comma (y # ys)"

fun repr :: "pyvalue \<Rightarrow> string" where
  "repr PyNone = ''None''"
| "repr (PyBool b) = (if b then ''True'' else ''False'')"
| "repr (PyInt i) = repr_int i"
| "repr (PyFloat r) = r"
| "repr (PyStr s) = repr_str s"
| "repr (PyList xs) = ''['' @ join_comma (map repr xs) @ '']''"
| "repr (PyDict items) =
     ''{'' @ join_comma (map (\<lambda>kv. repr_str (fst kv) @ '': '' @ repr (snd kv)) items) @ ''}''"

text \<open>\<open>str(v)\<close>: a \<open>str\<close> is returned as it is, every other value gives its \<open>repr\<close>.\<close>

fun str :: "pyvalue \<Rightarrow> string" where
  "str (PyStr s) = s"
| "str v = repr v"

section \<open>\<open>agent_ai_gen.DictionaryAgent\<close>: \<open>load\<close> and \<open>save\<close>\<close>

text \<open>
  The file system, as far as \<open>load\<close> and \<open>save\<close> see it. For each path it records what
  \<open>open(path, "r", encoding="utf-8")\<close> followed by \<open>json.load\<close> meets there:
  \<^item> \<open>NoFile\<close>: nothing at the path, \<open>open\<close> raises \<open>FileNotFoundError\<close>;
  \<^item> \<open>NoAccess\<close>: \<open>open\<close> raises another \<open>OSError\<close> (permission denied, a directory);
  \<^item> \<open>NotUTF8\<close>: the bytes are not UTF-8, reading raises \<open>UnicodeDecodeError\<close>;
  \<^item> \<open>NotJSON\<close>: the text is not a JSON document, \<open>json.load\<close> raises \<open>JSONDecodeError\<close>;
  \<^item> \<open>Document v\<close>: the text is a JSON document and \<open>json.load\<close> returns \<open>v\<close>.

  \<open>writable\<close> says for each path whether \<open>save\<close> can create the missing directories and
  open the file for writing. The text that \<open>json.dump\<close> writes for a dictionary of strings
  is a JSON object with the items in their order, and \<open>json.load\<close> reads that text back as
  the same items: the file written by \<open>save\<close> is recorded as that \<open>Document\<close>. Two paths are
  the same file only when they are the same string.
\<close>

datatype file_state = NoFile | NoAccess | NotUTF8 | NotJSON | Document pyvalue

record filesystem =
  files :: "string \<Rightarrow> file_state"
  writable :: "string \<Rightarrow> bool"

text \<open>\<open>{str(k): str(v) for k, v in data.items()}\<close>, one item after the other.\<close>

fun dict_comprehension :: "pydict \<Rightarrow> (string \<times> pyvalue) list \<Rightarrow> pydict" where
  "dict_comprehension acc [] = acc"
| "dict_comprehension acc ((k, v) # items) =
     dict_comprehension (dict_setitem acc (str (PyStr k)) (str v)) items"

text \<open>
  \<open>load\<close>: the \<open>try\<close> catches \<open>FileNotFoundError\<close> only; every other exception leaves the
  method, and \<open>self._dict\<close> has not been assigned by then.
\<close>

definition load :: "filesystem \<Rightarrow> agent_ai_gen \<Rightarrow> error + agent_ai_gen" where
  "load fs self =
     (case files fs (storage_path self) of
        NoFile \<Rightarrow> Inr (self\<lparr>dict := []\<rparr>)
      | NoAccess \<Rightarrow> Inl OSError
      | NotUTF8 \<Rightarrow> Inl UnicodeDecodeError
      | NotJSON \<Rightarrow> Inl JSONDecodeError
      | Document v \<Rightarrow>
          (case v of
             PyDict items \<Rightarrow> Inr (self\<lparr>dict := dict_comprehension [] items\<rparr>)
           | _ \<Rightarrow> Inr (self\<lparr>dict := []\<rparr>)))"


text \<open>A file system with nothing in it, and one whose \<open>dictionary.json\<close> is not JSON.\<close>

definition empty_fs :: filesystem where
  "empty_fs = \<lparr>files = (\<lambda>p. NoFile), writable = (\<lambda>p. True)\<rparr>"


section \<open>Facts about the dictionary operations\<close>

lemma map_of_dict_setitem: "map_of (dict_setitem d k v) = (map_of d)(k \<mapsto> v)"
  by (induction d k v rule: dict_setitem.induct) auto

lemma keys_dict_setitem:
  "map fst (dict_setitem d k v) = (if k \<in> set (map fst d) then map fst d else map fst d @ [k])"
  by (induction d k v rule: dict_setitem.induct) auto


section \<open>Adding a word\<close>

text \<open>
  C4. When the word \<open>w\<close> is already a key, \<open>add\<close> without \<open>overwrite\<close> returns \<open>False\<close> and
  leaves the agent as it was, and \<open>add\<close> with \<open>overwrite\<close> returns \<open>True\<close> and leaves the old
  mapping with \<open>w\<close> bound to the new definition: every other key keeps its value, and the keys
  and their order are the old ones. Both classes have the same \<open>add\<close>; its result is a value,
  never an exception.
\<close>

theorem add_existing_word:
  assumes "dict_contains (data self) w" and "dict_contains (dict self') w"
  shows "add_v3 self w d2 False = (False, self)
       \<and> fst (add_v3 self w d2 True) = True
       \<and> map_of (data (snd (add_v3 self w d2 True))) = (map_of (data self))(w \<mapsto> d2)
       \<and> dict_keys (data (snd (add_v3 self w d2 True))) = dict_keys (data self)
       \<and> add_gen self' w d2 False = (False, self')
       \<and> fst (add_gen self' w d2 True) = True
       \<and> map_of (dict (snd (add_gen self' w d2 True))) = (map_of (dict self'))(w \<mapsto> d2)
       \<and> dict_keys (dict (snd (add_gen self' w d2 True))) = dict_keys (dict self')
       \<and> storage_path (snd (add_gen self' w d2 True)) = storage_path self'"
  using assms
  by (simp add: add_v3_def add_gen_def map_of_dict_setitem dict_keys_def dict_contains_def
      keys_dict_setitem)

theorem add_existing_word_witness:
  "add_v3 \<lparr>data = [(''cache'', ''old'')]\<rparr> ''cache'' ''new'' False
     = (False, \<lparr>data = [(''cache'', ''old'')]\<rparr>)
   \<and> map_of (data (snd (add_v3 \<lparr>data = [(''cache'', ''old'')]\<rparr> ''cache'' ''new'' True))) ''cache''
     = Some ''new''
   \<and> add_gen \<lparr>dict = [(''cache'', ''old'')], storage_path = ''d.json''\<rparr> ''cache'' ''new'' False
     = (False, \<lparr>dict = [(''cache'', ''old'')], storage_path = ''d.json''\<rparr>)"
  using add_existing_word [of "\<lparr>data = [(''cache'', ''old'')]\<rparr>" "''cache''"
      "\<lparr>dict = [(''cache'', ''old'')], storage_path = ''d.json''\<rparr>" "''new''"]
  by (simp add: dict_contains_def dict_keys_def)

lemma define_loop_find:
  "define_loop d key = map_option snd (find (\<lambda>(k, v). lower k = key) d)"
  by (induction d key rule: define_loop.induct) auto

lemma dict_delitem_absent: "k \<notin> set (map fst d) \<Longrightarrow> dict_delitem d k = Inl KeyError"
  by (induction d k rule: dict_delitem.induct) auto

lemma dict_delitem_present:
  "k \<in> set (map fst d) \<Longrightarrow> distinct (map fst d) \<Longrightarrow>
   dict_delitem d k = Inr (filter (\<lambda>kv. fst kv \<noteq> k) d)"
proof (induction d k rule: dict_delitem.induct)
  case (1 k)
  then show ?case by simp
next
  case (2 k' v' d k)
  show ?case
  proof (cases "k' = k")
    case True
    with 2(3) have "k \<notin> set (map fst d)" by simp
    then have "filter (\<lambda>kv. fst kv \<noteq> k) d = d"
      by (induction d) auto
    with True show ?thesis by simp
  next
    case False
    with 2 show ?thesis by simp
  qed
qed

lemma filter_key_changes:
  "k \<in> set (map fst d) \<Longrightarrow> filter (\<lambda>kv. fst kv \<noteq> k) d \<noteq> d"
proof
  assume k: "k \<in> set (map fst d)" and eq: "filter (\<lambda>kv. fst kv \<noteq> k) d = d"
  from eq have "\<forall>kv \<in> set d. fst kv \<noteq> k" by (metis (mono_tags, lifting) filter_id_conv)
  with k show False by auto
qed

lemma remove_loop_find:
  "set ks \<subseteq> set (map fst d) \<Longrightarrow> distinct (map fst d) \<Longrightarrow>
   remove_loop d ks w =
     (case find (\<lambda>k. lower k = lower w) ks of
        None \<Rightarrow> Inr (False, d)
      | Some k \<Rightarrow> Inr (True, filter (\<lambda>kv. fst kv \<noteq> k) d))"
  by (induction ks) (auto simp: dict_delitem_present)

section \<open>Removing a word\<close>

text \<open>
  C5. \<open>remove(w)\<close> never raises. When \<open>w\<close> is a key it deletes exactly that key; otherwise it
  deletes the first key, in the order of the dictionary, whose lower case equals the lower case
  of \<open>w\<close>, when there is one; otherwise it deletes nothing. The flag it returns is \<open>True\<close>
  exactly when the dictionary it leaves differs from the one it started with.
\<close>

theorem remove_v3_exact_then_caseless:
  assumes "wf_dict (data self)"
  shows "remove_v3 self w =
           (if dict_contains (data self) w
            then Inr (True, self\<lparr>data := filter (\<lambda>kv. fst kv \<noteq> w) (data self)\<rparr>)
            else (case find (\<lambda>k. lower k = lower w) (dict_keys (data self)) of
                    Some k \<Rightarrow> Inr (True, self\<lparr>data := filter (\<lambda>kv. fst kv \<noteq> k) (data self)\<rparr>)
                  | None \<Rightarrow> Inr (False, self)))
       \<and> (\<exists>r self'. remove_v3 self w = Inr (r, self') \<and> (r \<longleftrightarrow> data self' \<noteq> data self))"
proof -
  let ?d = "data self"
  from assms have dist: "distinct (map fst ?d)" by (simp add: wf_dict_def)
  have loop: "remove_loop ?d (dict_keys ?d) w =
     (case find (\<lambda>k. lower k = lower w) (dict_keys ?d) of
        None \<Rightarrow> Inr (False, ?d)
      | Some k \<Rightarrow> Inr (True, filter (\<lambda>kv. fst kv \<noteq> k) ?d))"
    using dist by (simp add: remove_loop_find dict_keys_def)
  show ?thesis
  proof (cases "dict_contains ?d w")
    case True
    then have "w \<in> set (map fst ?d)" by (simp add: dict_contains_def dict_keys_def)
    then show ?thesis
      using True dist by (auto simp: remove_v3_def dict_delitem_present filter_key_changes)
  next
    case False
    show ?thesis
    proof (cases "find (\<lambda>k. lower k = lower w) (dict_keys ?d)")
      case None
      with False loop show ?thesis by (auto simp: remove_v3_def)
    next
      case (Some k)
      then have "k \<in> set (dict_keys ?d)" by (auto simp: find_Some_iff)
      then have "filter (\<lambda>kv. fst kv \<noteq> k) ?d \<noteq> ?d"
        by (simp add: filter_key_changes dict_keys_def)
      with False loop Some show ?thesis by (auto simp: remove_v3_def)
    qed
  qed
qed

theorem remove_v3_exact_then_caseless_witness:
  "wf_dict (data \<lparr>data = [(''Cache'', ''a''), (''cache'', ''b''), (''CACHE'', ''c'')]\<rparr>)
   \<and> remove_v3 \<lparr>data = [(''Cache'', ''a''), (''cache'', ''b''), (''CACHE'', ''c'')]\<rparr> ''cache''
       = Inr (True, \<lparr>data = [(''Cache'', ''a''), (''CACHE'', ''c'')]\<rparr>)
   \<and> remove_v3 \<lparr>data = [(''Cache'', ''a''), (''cache'', ''b''), (''CACHE'', ''c'')]\<rparr> ''cAche''
       = Inr (True, \<lparr>data = [(''cache'', ''b''), (''CACHE'', ''c'')]\<rparr>)
   \<and> remove_v3 \<lparr>data = [(''Cache'', ''a''), (''cache'', ''b''), (''CACHE'', ''c'')]\<rparr> ''cash''
       = Inr (False, \<lparr>data = [(''Cache'', ''a''), (''cache'', ''b''), (''CACHE'', ''c'')]\<rparr>)"
proof -
  let ?s = "\<lparr>data = [(''Cache'', ''a''), (''cache'', ''b''), (''CACHE'', ''c'')]\<rparr>"
  have wf: "wf_dict (data ?s)" by (simp add: wf_dict_def)
  have l1: "lower ''Cache'' = ''cache''" and l2: "lower ''cache'' = ''cache''"
    and l3: "lower ''CACHE'' = ''cache''" and l4: "lower ''cAche'' = ''cache''"
    and l5: "lower ''cash'' = ''cash''"
    by code_simp+
  show ?thesis
    using remove_v3_exact_then_caseless [OF wf, of "''cache''"]
      remove_v3_exact_then_caseless [OF wf, of "''cAche''"]
      remove_v3_exact_then_caseless [OF wf, of "''cash''"] wf
    by (simp add: dict_contains_def dict_keys_def l1 l2 l3 l4 l5)
qed

section \<open>Words that are not in the dictionary\<close>

lemma define_loop_no_match:
  "\<forall>k \<in> set (map fst d). lower k \<noteq> key \<Longrightarrow> define_loop d key = None"
  by (induction d key rule: define_loop.induct) auto

lemma remove_loop_no_match:
  "\<forall>k \<in> set ks. lower k \<noteq> lower w \<Longrightarrow> remove_loop d ks w = Inr (False, d)"
  by (induction ks) auto

lemma map_of_absent: "k \<notin> set (map fst d) \<Longrightarrow> map_of d k = None"
  by (simp add: map_of_eq_None_iff)

text \<open>
  C6, as the specification states it, fails for \<open>agentv3\<close>: with the single key \<open>Cache\<close>, the
  word \<open>cache\<close> is not a key, yet the default \<open>define\<close> finds the definition and \<open>remove\<close>
  deletes the entry and returns \<open>True\<close>.
\<close>

theorem absent_word_counterexample:
  "\<not> dict_contains (data \<lparr>data = [(''Cache'', ''d'')]\<rparr>) ''cache''
   \<and> define_v3 \<lparr>data = [(''Cache'', ''d'')]\<rparr> ''cache'' False = Some ''d''
   \<and> remove_v3 \<lparr>data = [(''Cache'', ''d'')]\<rparr> ''cache'' = Inr (True, \<lparr>data = []\<rparr>)"
proof -
  have l: "lower ''Cache'' = ''cache''" "lower ''cache'' = ''cache''"
    by code_simp+
  show ?thesis
    by (simp add: dict_contains_def dict_keys_def define_v3_def remove_v3_def l)
qed

text \<open>
  C6, amended. When no key of the dictionary equals \<open>w\<close> up to case (so \<open>w\<close> is not a key
  either), \<open>define\<close> returns \<open>None\<close> in both modes and \<open>remove\<close> returns \<open>False\<close> and leaves
  the agent unchanged. The operations that match exactly, the case-sensitive \<open>define\<close> and the
  \<open>lookup\<close> and \<open>remove\<close> of \<open>agent_ai_gen\<close>, do so for every \<open>w\<close> that is not a key.
\<close>

theorem absent_word_not_found:
  assumes "\<forall>k \<in> set (dict_keys (data self)). lower k \<noteq> lower w"
    and "\<not> dict_contains (data self2) w"
    and "\<not> dict_contains (dict s) w"
  shows "\<not> dict_contains (data self) w
       \<and> define_v3 self w False = None
       \<and> define_v3 self w True = None
       \<and> remove_v3 self w = Inr (False, self)
       \<and> define_v3 self2 w True = None
       \<and> lookup s w = None
       \<and> remove_gen s w = (False, s)"
proof -
  from assms(1) have nk: "w \<notin> set (map fst (data self))"
    by (auto simp: dict_keys_def)
  from assms(1) have "define_loop (data self) (lower w) = None"
    by (intro define_loop_no_match) (simp add: dict_keys_def)
  moreover from assms(1) have "remove_loop (data self) (dict_keys (data self)) w = Inr (False, data self)"
    by (intro remove_loop_no_match)
  moreover from assms(2) have "map_of (data self2) w = None"
    by (simp add: map_of_absent dict_contains_def dict_keys_def)
  moreover from assms(3) have "w \<notin> set (map fst (dict s))"
    by (simp add: dict_contains_def dict_keys_def)
  ultimately show ?thesis
    using nk
    by (simp add: define_v3_def remove_v3_def lookup_def remove_gen_def dict_pop_def dict_get_def
        dict_contains_def dict_keys_def map_of_absent dict_delitem_absent)
qed

theorem absent_word_not_found_witness:
  "dict_keys (data \<lparr>data = [(''Cache'', ''d'')]\<rparr>) = [''Cache'']
   \<and> lower ''Cache'' \<noteq> lower ''cash''
   \<and> \<not> dict_contains (data \<lparr>data = [(''Cash'', ''d'')]\<rparr>) ''cash''
   \<and> \<not> dict_contains (dict \<lparr>dict = [(''Cash'', ''d'')], storage_path = ''p''\<rparr>) ''cash''
   \<and> define_v3 \<lparr>data = [(''Cache'', ''d'')]\<rparr> ''cash'' False = None
   \<and> remove_v3 \<lparr>data = [(''Cache'', ''d'')]\<rparr> ''cash'' = Inr (False, \<lparr>data = [(''Cache'', ''d'')]\<rparr>)
   \<and> define_v3 \<lparr>data = [(''Cash'', ''d'')]\<rparr> ''cash'' True = None
   \<and> lookup \<lparr>dict = [(''Cash'', ''d'')], storage_path = ''p''\<rparr> ''cash'' = None
   \<and> remove_gen \<lparr>dict = [(''Cash'', ''d'')], storage_path = ''p''\<rparr> ''cash''
       = (False, \<lparr>dict = [(''Cash'', ''d'')], storage_path = ''p''\<rparr>)"
proof -
  have l: "lower ''Cache'' = ''cache''" "lower ''cash'' = ''cash''"
    by code_simp+
  have h1: "\<forall>k \<in> set (dict_keys (data \<lparr>data = [(''Cache'', ''d'')]\<rparr>)). lower k \<noteq> lower ''cash''"
    by (simp add: dict_keys_def l)
  have h2: "\<not> dict_contains (data \<lparr>data = [(''Cash'', ''d'')]\<rparr>) ''cash''"
    by (simp add: dict_contains_def dict_keys_def)
  have h3: "\<not> dict_contains (dict \<lparr>dict = [(''Cash'', ''d'')], storage_path = ''p''\<rparr>) ''cash''"
    by (simp add: dict_contains_def dict_keys_def)
  from absent_word_not_found [OF h1 h2 h3] h2 h3 show ?thesis
    by (simp add: dict_keys_def l)
qed

section \<open>Looking a word up\<close>

text \<open>
  C7. The default \<open>define\<close> returns the value of the first entry, in the order of the
  dictionary, whose key equals the word once both are lower-cased, and \<open>None\<close> when there is
  none; the case-sensitive \<open>define\<close> returns the value bound to exactly that key. With the
  dictionary \<open>{"cache": d}\<close>, \<open>define("Cache")\<close> is \<open>d\<close> and the case-sensitive
  \<open>define("Cache")\<close> is \<open>None\<close>.
\<close>

theorem define_v3_first_caseless_match:
  "define_v3 self w False = map_option snd (find (\<lambda>(k, v). lower k = lower w) (data self))
   \<and> define_v3 self w True = map_of (data self) w
   \<and> define_v3 \<lparr>data = [(''cache'', d)]\<rparr> ''Cache'' False = Some d
   \<and> define_v3 \<lparr>data = [(''cache'', d)]\<rparr> ''Cache'' True = None"
proof -
  have l: "lower ''Cache'' = ''cache''" "lower ''cache'' = ''cache''"
    by code_simp+
  show ?thesis
    by (simp add: define_v3_def define_loop_find dict_get_def l)
qed

section \<open>Adding, then looking up\<close>

text \<open>
  C8. After an \<open>add(w, d)\<close> that returns \<open>True\<close>, the case-sensitive lookup of \<open>w\<close> returns
  \<open>d\<close>; a further \<open>add(w, d2, overwrite=True)\<close> returns \<open>True\<close>, and the lookup of \<open>w\<close> then
  returns \<open>d2\<close>. This holds for \<open>add\<close> and \<open>define\<close> of \<open>agentv3\<close> and for \<open>add\<close> and
  \<open>lookup\<close> of \<open>agent_ai_gen\<close>.
\<close>

theorem add_then_lookup:
  assumes "add_v3 self w d ov = (True, self')" and "add_gen s w d ov = (True, s')"
  shows "define_v3 self' w True = Some d
       \<and> lookup s' w = Some d
       \<and> fst (add_v3 self' w d2 True) = True
       \<and> define_v3 (snd (add_v3 self' w d2 True)) w True = Some d2
       \<and> fst (add_gen s' w d2 True) = True
       \<and> lookup (snd (add_gen s' w d2 True)) w = Some d2"
  using assms
  by (auto simp: add_v3_def add_gen_def define_v3_def lookup_def dict_get_def map_of_dict_setitem
      split: if_splits)

theorem add_then_lookup_witness:
  "add_v3 \<lparr>data = BUILT_IN_DICT\<rparr> ''heap'' ''d1'' False
     = (True, \<lparr>data = BUILT_IN_DICT @ [(''heap'', ''d1'')]\<rparr>)
   \<and> add_gen \<lparr>dict = [], storage_path = ''p''\<rparr> ''heap'' ''d1'' False
     = (True, \<lparr>dict = [(''heap'', ''d1'')], storage_path = ''p''\<rparr>)
   \<and> define_v3 \<lparr>data = BUILT_IN_DICT @ [(''heap'', ''d1'')]\<rparr> ''heap'' True = Some ''d1''
   \<and> lookup \<lparr>dict = [(''heap'', ''d1'')], storage_path = ''p''\<rparr> ''heap'' = Some ''d1''
   \<and> define_v3 (snd (add_v3 \<lparr>data = BUILT_IN_DICT @ [(''heap'', ''d1'')]\<rparr> ''heap'' ''d2'' True))
        ''heap'' True = Some ''d2''"
proof -
  have a1: "add_v3 \<lparr>data = BUILT_IN_DICT\<rparr> ''heap'' ''d1'' False
     = (True, \<lparr>data = BUILT_IN_DICT @ [(''heap'', ''d1'')]\<rparr>)"
    by (simp add: add_v3_def dict_contains_def dict_keys_def BUILT_IN_DICT_def)
  have a2: "add_gen \<lparr>dict = [], storage_path = ''p''\<rparr> ''heap'' ''d1'' False
     = (True, \<lparr>dict = [(''heap'', ''d1'')], storage_path = ''p''\<rparr>)"
    by (simp add: add_gen_def dict_contains_def dict_keys_def)
  from add_then_lookup [OF a1 a2, of "''d2''"] a1 a2 show ?thesis
    by blast
qed

section \<open>Listing the words\<close>

lemma startswith_prefix: "startswith k p \<longleftrightarrow> prefix p k"
  by (auto simp: startswith_def prefix_def) (metis append_eq_conv_conj)

text \<open>
  C9. \<open>list()\<close> returns the keys in ascending lexicographic order: the result is sorted, has
  no repetition, and its elements are exactly the keys. \<open>list(prefix=p)\<close> returns the keys that
  start with \<open>p\<close>, compared character by character with no case folding, in the same order:
  it is the sublist of \<open>list()\<close> of the words that have \<open>p\<close> as a prefix.
\<close>

theorem list_v3_sorted_keys:
  assumes "wf_dict (data self)"
  shows "sorted (list_v3 self None) \<and> distinct (list_v3 self None)
       \<and> set (list_v3 self None) = set (dict_keys (data self))
       \<and> list_v3 self (Some p) = filter (prefix p) (list_v3 self None)
       \<and> sorted (list_v3 self (Some p)) \<and> distinct (list_v3 self (Some p))
       \<and> set (list_v3 self (Some p)) = {k \<in> set (dict_keys (data self)). prefix p k}"
proof -
  let ?ks = "sort (dict_keys (data self))"
  from assms have d: "distinct ?ks" by (simp add: wf_dict_def dict_keys_def)
  have n: "list_v3 self None = ?ks" by (simp add: list_v3_def)
  have s: "list_v3 self (Some p) = filter (prefix p) ?ks"
  proof (cases "p = []")
    case True
    then show ?thesis by (simp add: list_v3_def)
  next
    case False
    then show ?thesis by (simp add: list_v3_def startswith_prefix)
  qed
  have "sorted (filter (prefix p) ?ks)" by (simp add: sorted_wrt_filter)
  moreover have "set (filter (prefix p) ?ks) = {k \<in> set (dict_keys (data self)). prefix p k}"
    by auto
  ultimately show ?thesis using d n s by simp
qed

theorem list_v3_sorted_keys_witness:
  "wf_dict (data \<lparr>data = [(''cache'', ''c''), (''Apple'', ''A''), (''binary'', ''b''), (''bin'', ''b2'')]\<rparr>)
   \<and> list_v3 \<lparr>data = [(''cache'', ''c''), (''Apple'', ''A''), (''binary'', ''b''), (''bin'', ''b2'')]\<rparr>
        (Some ''bi'')
     = filter (prefix ''bi'')
        (list_v3 \<lparr>data = [(''cache'', ''c''), (''Apple'', ''A''), (''binary'', ''b''), (''bin'', ''b2'')]\<rparr> None)
   \<and> list_v3 \<lparr>data = [(''cache'', ''c''), (''Apple'', ''A''), (''binary'', ''b''), (''bin'', ''b2'')]\<rparr> None
     = [''Apple'', ''bin'', ''binary'', ''cache'']"
proof -
  let ?s = "\<lparr>data = [(''cache'', ''c''), (''Apple'', ''A''), (''binary'', ''b''), (''bin'', ''b2'')]\<rparr>"
  have wf: "wf_dict (data ?s)" by (simp add: wf_dict_def)
  have e: "list_v3 ?s None = [''Apple'', ''bin'', ''binary'', ''cache'']"
    by (simp add: list_v3_def dict_keys_def)
  from list_v3_sorted_keys [OF wf, of "''bi''"] wf e show ?thesis
    by simp
qed

section \<open>Loading and saving\<close>

lemma dict_setitem_new: "k \<notin> set (map fst d) \<Longrightarrow> dict_setitem d k v = d @ [(k, v)]"
  by (induction d k v rule: dict_setitem.induct) auto

lemma dict_comprehension_distinct:
  "distinct (map fst acc @ map fst items) \<Longrightarrow>
   dict_comprehension acc items = acc @ map (\<lambda>kv. (fst kv, str (snd kv))) items"
proof (induction acc items rule: dict_comprehension.induct)
  case (1 acc)
  then show ?case by simp
next
  case (2 acc k v items)
  from 2(2) have new: "k \<notin> set (map fst acc)" by auto
  then have step: "dict_setitem acc (str (PyStr k)) (str v) = acc @ [(k, str v)]"
    by (simp add: dict_setitem_new)
  from 2(2) have "distinct (map fst (acc @ [(k, str v)]) @ map fst items)" by auto
  with 2(1) step show ?case by simp
qed


lemma keys_dict_comprehension:
  "set (map fst (dict_comprehension acc items)) = set (map fst acc) \<union> set (map fst items)"
  by (induction acc items rule: dict_comprehension.induct) (auto simp: keys_dict_setitem)






text \<open>
  C10. When the file holds a key-value object, \<open>load\<close> succeeds whatever the values are, and
  the mapping it leaves has the keys of the object, each bound to \<open>str\<close> of its value: a
  string stays as it is, and a number, a boolean, \<open>null\<close>, a list or an object is replaced by
  its text. The keys of an object read by \<open>json.load\<close> are strings already. The result is a
  dictionary of strings with unique keys.
\<close>

theorem load_coerces_values:
  assumes "files fs (storage_path self) = Document (PyDict items)"
    and "distinct (map fst items)"
  shows "load fs self = Inr (self\<lparr>dict := map (\<lambda>kv. (fst kv, str (snd kv))) items\<rparr>)
       \<and> wf_dict (map (\<lambda>kv. (fst kv, str (snd kv))) items)
       \<and> dict_keys (map (\<lambda>kv. (fst kv, str (snd kv))) items) = map fst items
       \<and> str (PyStr s) = s"
proof -
  from assms(2) have "distinct (map fst [] @ map fst items)" by simp
  then have "dict_comprehension [] items = [] @ map (\<lambda>kv. (fst kv, str (snd kv))) items"
    by (rule dict_comprehension_distinct)
  then show ?thesis
    using assms by (simp add: load_def wf_dict_def dict_keys_def comp_def)
qed

theorem load_coerces_values_witness:
  "files (empty_fs\<lparr>files := (files empty_fs)(''d.json'' := Document (PyDict
       [(''n'', PyInt (-12)), (''b'', PyBool True), (''z'', PyNone), (''s'', PyStr ''text''),
        (''l'', PyList [PyInt 1, PyStr ''two''])]))\<rparr>) ''d.json''
     = Document (PyDict
       [(''n'', PyInt (-12)), (''b'', PyBool True), (''z'', PyNone), (''s'', PyStr ''text''),
        (''l'', PyList [PyInt 1, PyStr ''two''])])
   \<and> distinct [''n'', ''b'', ''z'', ''s'', ''l'']
   \<and> load (empty_fs\<lparr>files := (files empty_fs)(''d.json'' := Document (PyDict
       [(''n'', PyInt (-12)), (''b'', PyBool True), (''z'', PyNone), (''s'', PyStr ''text''),
        (''l'', PyList [PyInt 1, PyStr ''two''])]))\<rparr>) \<lparr>dict = [], storage_path = ''d.json''\<rparr>
     = Inr \<lparr>dict = [(''n'', ''-12''), (''b'', ''True''), (''z'', ''None''), (''s'', ''text''),
                     (''l'', ''[1, '' @ [CHR 0x27] @ ''two'' @ [CHR 0x27] @ '']'')],
            storage_path = ''d.json''\<rparr>"
proof -
  let ?items = "[(''n'', PyInt (-12)), (''b'', PyBool True), (''z'', PyNone), (''s'', PyStr ''text''),
        (''l'', PyList [PyInt 1, PyStr ''two''])]"
  let ?fs = "empty_fs\<lparr>files := (files empty_fs)(''d.json'' := Document (PyDict ?items))\<rparr>"
  let ?self = "\<lparr>dict = [], storage_path = ''d.json''\<rparr>"
  have f: "files ?fs (storage_path ?self) = Document (PyDict ?items)" by simp
  have d: "distinct (map fst ?items)" by simp
  have v: "map (\<lambda>kv. (fst kv, str (snd kv))) ?items
     = [(''n'', ''-12''), (''b'', ''True''), (''z'', ''None''), (''s'', ''text''),
        (''l'', ''[1, '' @ [CHR 0x27] @ ''two'' @ [CHR 0x27] @ '']'')]"
    by code_simp
  from load_coerces_values [OF f d] f d v show ?thesis
    by simp
qed

section \<open>The longest match is a match\<close>

definition b2j_sound :: "string \<Rightarrow> (char \<rightharpoonup> nat list) \<Rightarrow> bool" where
  "b2j_sound b b2j = (\<forall>elt js. b2j elt = Some js \<longrightarrow> (\<forall>j \<in> set js. b ! j = elt))"

definition j2len_match :: "string \<Rightarrow> string \<Rightarrow> nat \<Rightarrow> (nat \<rightharpoonup> nat) \<Rightarrow> bool" where
  "j2len_match a b i j2len =
     (\<forall>j l. j2len j = Some l \<longrightarrow> (\<forall>t<l. a ! (i - 1 - t) = b ! (j - t)))"

definition best_match :: "string \<Rightarrow> string \<Rightarrow> match \<Rightarrow> bool" where
  "best_match a b best =
     (case best of (besti, bestj, bestsize) \<Rightarrow> \<forall>t<bestsize. a ! (besti + t) = b ! (bestj + t))"

lemma j2len_okD:
  "j2len_ok alo blo i j2len \<Longrightarrow> j2len j = Some l \<Longrightarrow>
   1 \<le> l \<and> l \<le> i - alo \<and> blo \<le> j \<and> l \<le> j + 1 - blo"
  unfolding j2len_ok_def by blast

lemma b2j_soundD: "b2j_sound b b2j \<Longrightarrow> b2j elt = Some js \<Longrightarrow> j \<in> set js \<Longrightarrow> b ! j = elt"
  unfolding b2j_sound_def by blast

lemma j2len_prev_bounds:
  assumes "j2len_ok alo blo i j2len" and "alo \<le> i" and "\<not> j < blo"
  shows "j2len_prev j2len j + 1 \<le> Suc i - alo \<and> j2len_prev j2len j + 1 \<le> j + 1 - blo"
proof (cases "j = 0 \<or> j2len (j - 1) = None")
  case True
  with assms(2,3) show ?thesis by (auto simp: j2len_prev_def)
next
  case False
  then obtain l where l: "j \<noteq> 0" "j2len (j - 1) = Some l" by auto
  from j2len_okD [OF assms(1) l(2)]
  have "l \<le> i - alo" "blo \<le> j - 1" "l \<le> j - 1 + 1 - blo" by simp_all
  with l(1) assms(2) have "l + 1 \<le> Suc i - alo \<and> l + 1 \<le> j + 1 - blo" by arith
  with l show ?thesis by (simp add: j2len_prev_def)
qed

lemma j2len_prev_match:
  assumes "j2len_ok alo blo i j2len" and "j2len_match a b i j2len"
    and "alo \<le> i" and "\<not> j < blo" and "b ! j = a ! i" and "t < j2len_prev j2len j + 1"
  shows "a ! (i - t) = b ! (j - t)"
proof (cases t)
  case 0
  with assms(5) show ?thesis by simp
next
  case (Suc t')
  with assms(6) have pos: "t' < j2len_prev j2len j" by simp
  then have "j \<noteq> 0 \<and> j2len (j - 1) \<noteq> None"
    by (cases "j2len (j - 1)") (auto simp: j2len_prev_def split: if_splits)
  then obtain l where l: "j \<noteq> 0" "j2len (j - 1) = Some l" by auto
  with pos have tl: "t' < l" by (simp add: j2len_prev_def)
  from j2len_okD [OF assms(1) l(2)]
  have "l \<le> i - alo" "l \<le> j - 1 + 1 - blo" by simp_all
  with tl l(1) have le: "Suc t' \<le> i" "Suc t' \<le> j" by simp_all
  from assms(2) l(2) tl have "a ! (i - 1 - t') = b ! (j - 1 - t')"
    by (simp add: j2len_match_def)
  with le Suc show ?thesis by simp
qed

lemma flm_inner_match:
  assumes "alo \<le> i"
    and "j2len_ok alo blo i j2len" and "j2len_match a b i j2len"
    and "\<forall>j \<in> set js. b ! j = a ! i"
    and "j2len_match a b (Suc i) newj2len"
    and "best_match a b best"
    and "flm_inner js i blo bhi j2len newj2len best = (n', best')"
  shows "j2len_match a b (Suc i) n' \<and> best_match a b best'"
  using assms(4-7)
proof (induction js arbitrary: newj2len best)
  case Nil
  then show ?case by simp
next
  case (Cons j js)
  obtain besti bestj bestsize where best: "best = (besti, bestj, bestsize)"
    by (cases best)
  from Cons.prems(1) have rest: "\<forall>j \<in> set js. b ! j = a ! i" and here: "b ! j = a ! i"
    by simp_all
  show ?case
  proof (cases "j < blo")
    case True
    with Cons.IH [OF rest Cons.prems(2,3)] Cons.prems(4) best show ?thesis by simp
  next
    case lo: False
    show ?thesis
    proof (cases "j \<ge> bhi")
      case True
      with Cons.prems lo best show ?thesis by simp
    next
      case hi: False
      define k where "k = j2len_prev j2len j + 1"
      from j2len_prev_bounds [OF assms(2,1) lo]
      have "k \<le> Suc i - alo" "k \<le> j + 1 - blo" by (simp_all add: k_def)
      then have kb: "k \<le> Suc i" "k \<le> Suc j" by simp_all
      have ends: "a ! (i - t) = b ! (j - t)" if "t < k" for t
        using j2len_prev_match [OF assms(2,3,1) lo here] that by (simp add: k_def)
      let ?n = "newj2len(j \<mapsto> k)"
      let ?b = "if k > bestsize then (i + 1 - k, j + 1 - k, k) else (besti, bestj, bestsize)"
      have n_ok: "j2len_match a b (Suc i) ?n"
        using Cons.prems(2) ends by (auto simp: j2len_match_def)
      have "a ! (i + 1 - k + t) = b ! (j + 1 - k + t)" if "t < k" for t
      proof -
        from that have "k - 1 - t < k" by simp
        from ends [OF this] that kb show ?thesis by simp
      qed
      then have b_ok: "best_match a b ?b"
        using Cons.prems(3) best by (auto simp: best_match_def)
      have "flm_inner js i blo bhi j2len ?n ?b = (n', best')"
        using Cons.prems(4) lo hi best by (auto simp: k_def Let_def split: if_splits)
      from Cons.IH [OF rest n_ok b_ok this] show ?thesis .
    qed
  qed
qed

lemma flm_outer_match:
  assumes "b2j_sound b b2j"
    and "alo \<le> i" and "j2len_ok alo blo i j2len" and "j2len_match a b i j2len"
    and "best_ok alo ahi blo bhi best" and "best_match a b best"
  shows "best_match a b (flm_outer a b2j blo bhi [i..<ahi] j2len best)"
  using assms(2-6)
proof (induction "ahi - i" arbitrary: i j2len best)
  case 0
  then show ?case by simp
next
  case (Suc n)
  then have lt: "i < ahi" by simp
  then have range: "[i..<ahi] = i # [Suc i..<ahi]" by (simp add: upt_conv_Cons)
  let ?js = "case b2j (a ! i) of None \<Rightarrow> [] | Some js \<Rightarrow> js"
  obtain n' best' where inner: "flm_inner ?js i blo bhi j2len Map.empty best = (n', best')"
    by (cases "flm_inner ?js i blo bhi j2len Map.empty best")
  have js: "\<forall>j \<in> set ?js. b ! j = a ! i"
    using b2j_soundD [OF assms(1)] by (cases "b2j (a ! i)") auto
  from flm_inner_bounds [OF Suc.prems(1) lt Suc.prems(2) j2len_ok_empty Suc.prems(4) inner]
  have ok: "j2len_ok alo blo (Suc i) n'" "best_ok alo ahi blo bhi best'" by simp_all
  have "j2len_match a b (Suc i) Map.empty" by (simp add: j2len_match_def)
  from flm_inner_match [OF Suc.prems(1,2,3) js this Suc.prems(5) inner]
  have m: "j2len_match a b (Suc i) n'" "best_match a b best'" by simp_all
  from Suc.hyps(2) have "n = ahi - Suc i" by simp
  from Suc.hyps(1) [OF this _ ok(1) m(1) ok(2) m(2)] Suc.prems(1)
  have "best_match a b (flm_outer a b2j blo bhi [Suc i..<ahi] n' best')" by simp
  with range inner show ?case by simp
qed

lemma extend_left_match:
  "best_match a b best \<Longrightarrow> best_match a b (extend_left bjunk junk a b alo blo best)"
proof (induction bjunk junk a b alo blo best rule: extend_left.induct)
  case (1 bjunk junk a b alo blo besti bestj bestsize)
  show ?case
  proof (cases "besti > alo \<and> bestj > blo \<and> (b ! (bestj - 1) \<in> bjunk) = junk
         \<and> a ! (besti - 1) = b ! (bestj - 1)")
    case True
    have "a ! (besti - 1 + t) = b ! (bestj - 1 + t)" if "t < bestsize + 1" for t
    proof (cases t)
      case 0
      with True show ?thesis by simp
    next
      case (Suc t')
      with that 1(2) have "a ! (besti + t') = b ! (bestj + t')" by (simp add: best_match_def)
      with True Suc show ?thesis by simp
    qed
    then have "best_match a b (besti - 1, bestj - 1, bestsize + 1)"
      by (simp add: best_match_def)
    with 1(1) True show ?thesis by (subst extend_left.simps) simp
  next
    case False
    with 1(2) show ?thesis by (subst extend_left.simps) auto
  qed
qed

lemma extend_right_match:
  "best_match a b best \<Longrightarrow> best_match a b (extend_right bjunk junk a b ahi bhi best)"
proof (induction bjunk junk a b ahi bhi best rule: extend_right.induct)
  case (1 bjunk junk a b ahi bhi besti bestj bestsize)
  show ?case
  proof (cases "besti + bestsize < ahi \<and> bestj + bestsize < bhi
         \<and> (b ! (bestj + bestsize) \<in> bjunk) = junk
         \<and> a ! (besti + bestsize) = b ! (bestj + bestsize)")
    case True
    with 1(2) have "best_match a b (besti, bestj, bestsize + 1)"
      by (auto simp: best_match_def less_Suc_eq)
    with 1(1) True show ?thesis by (subst extend_right.simps) simp
  next
    case False
    with 1(2) show ?thesis by (subst extend_right.simps) auto
  qed
qed

lemma find_longest_match_match:
  assumes "b2j_sound b b2j"
  shows "best_match a b (find_longest_match bjunk b2j a b alo ahi blo bhi)"
proof -
  have "best_match a b (flm_outer a b2j blo bhi [alo..<ahi] Map.empty (alo, blo, 0))"
    by (rule flm_outer_match [OF assms])
      (simp_all add: j2len_ok_empty j2len_match_def best_ok_def best_match_def)
  then show ?thesis
    unfolding find_longest_match_def
    by (intro extend_right_match extend_left_match)
qed

section \<open>\<open>b2j\<close> holds positions of \<open>b\<close>\<close>

lemma chain_b_loop_sound:
  assumes "b2j_sound (pre @ rest) b2j" and "length pre = i"
  shows "b2j_sound (pre @ rest) (chain_b_loop b2j i rest)"
  using assms
proof (induction rest arbitrary: b2j i pre)
  case Nil
  then show ?case by simp
next
  case (Cons x rest)
  define old where "old = (case b2j x of None \<Rightarrow> [] | Some indices \<Rightarrow> indices)"
  let ?m = "b2j(x \<mapsto> old @ [i])"
  have here: "(pre @ x # rest) ! i = x"
    using Cons.prems(2) by (simp add: nth_append)
  have old: "\<forall>j \<in> set old. (pre @ x # rest) ! j = x"
    using b2j_soundD [OF Cons.prems(1)] by (cases "b2j x") (auto simp: old_def)
  have "b2j_sound (pre @ x # rest) ?m"
    unfolding b2j_sound_def
  proof (intro allI impI ballI)
    fix elt js j
    assume m: "?m elt = Some js" and j: "j \<in> set js"
    show "(pre @ x # rest) ! j = elt"
    proof (cases "elt = x")
      case True
      with m have "js = old @ [i]" by simp
      with j have "j \<in> set old \<or> j = i" by auto
      with old here True show ?thesis by blast
    next
      case False
      with m have "b2j elt = Some js" by simp
      from b2j_soundD [OF Cons.prems(1) this j] show ?thesis .
    qed
  qed
  then have "b2j_sound ((pre @ [x]) @ rest) ?m" by simp
  moreover have "length (pre @ [x]) = Suc i" using Cons.prems(2) by simp
  ultimately have "b2j_sound ((pre @ [x]) @ rest) (chain_b_loop ?m (Suc i) rest)"
    by (rule Cons.IH)
  then show ?case by (simp add: old_def)
qed

lemma chain_b_sound: "b2j_sound b (chain_b b)"
proof -
  have "b2j_sound ([] @ b) (chain_b_loop Map.empty 0 b)"
    by (rule chain_b_loop_sound) (simp_all add: b2j_sound_def)
  then have loop: "b2j_sound b (chain_b_loop Map.empty 0 b)" by simp
  show ?thesis
    unfolding b2j_sound_def
  proof (intro allI impI ballI)
    fix elt js j
    assume m: "chain_b b elt = Some js" and j: "j \<in> set js"
    from m have "chain_b_loop Map.empty 0 b elt = Some js"
      by (auto simp: chain_b_def Let_def split: option.splits if_splits)
    from b2j_soundD [OF loop this j] show "b ! j = elt" .
  qed
qed

section \<open>The number of matches is bounded by the common characters\<close>

definition slice :: "string \<Rightarrow> nat \<Rightarrow> nat \<Rightarrow> string" where
  "slice s lo hi = take (hi - lo) (drop lo s)"

definition common :: "string \<Rightarrow> string \<Rightarrow> nat" where
  "common xs ys = size (mset xs \<inter># mset ys)"

lemma slice_split:
  "lo \<le> mid \<Longrightarrow> mid \<le> hi \<Longrightarrow> slice s lo hi = slice s lo mid @ slice s mid hi"
proof -
  assume a: "lo \<le> mid" "mid \<le> hi"
  then have "hi - lo = (mid - lo) + (hi - mid)" by simp
  then have "take (hi - lo) (drop lo s) = take (mid - lo) (drop lo s) @ take (hi - mid) (drop (mid - lo) (drop lo s))"
    by (simp add: take_add)
  with a show ?thesis by (simp add: slice_def)
qed

lemma slice_match:
  assumes "i + k \<le> length a" and "j + k \<le> length b" and "\<forall>t<k. a ! (i + t) = b ! (j + t)"
  shows "slice a i (i + k) = slice b j (j + k)"
  using assms by (intro nth_equalityI) (auto simp: slice_def)

lemma common_append:
  "common xs ys + common xs' ys' \<le> common (xs @ xs') (ys @ ys')"
proof -
  have "(mset xs \<inter># mset ys) + (mset xs' \<inter># mset ys') \<subseteq># (mset xs + mset xs') \<inter># (mset ys + mset ys')"
    by (auto simp: subseteq_mset_def intro!: add_mono)
  from size_mset_mono [OF this] show ?thesis by (simp add: common_def)
qed

lemma common_same: "common xs xs = length xs"
  by (simp add: common_def)

lemma common_le: "common xs ys \<le> min (length xs) (length ys)"
proof -
  have "size (mset xs \<inter># mset ys) \<le> size (mset xs)"
    by (intro size_mset_mono) simp
  moreover have "size (mset xs \<inter># mset ys) \<le> size (mset ys)"
    by (intro size_mset_mono) simp
  ultimately show ?thesis by (simp add: common_def)
qed

lemma common_block:
  assumes "alo \<le> i" and "i + k \<le> ahi" and "ahi \<le> length a"
    and "blo \<le> j" and "j + k \<le> bhi" and "bhi \<le> length b"
    and "\<forall>t<k. a ! (i + t) = b ! (j + t)"
  shows "common (slice a alo i) (slice b blo j) + k
         + common (slice a (i + k) ahi) (slice b (j + k) bhi)
         \<le> common (slice a alo ahi) (slice b blo bhi)"
proof -
  have sa: "slice a alo ahi = slice a alo i @ slice a i (i + k) @ slice a (i + k) ahi"
    using assms(1,2) slice_split [of alo i ahi a] slice_split [of i "i + k" ahi a] by simp
  have sb: "slice b blo bhi = slice b blo j @ slice b j (j + k) @ slice b (j + k) bhi"
    using assms(4,5) slice_split [of blo j bhi b] slice_split [of j "j + k" bhi b] by simp
  have eq: "slice a i (i + k) = slice b j (j + k)"
    using assms by (intro slice_match) simp_all
  have len: "length (slice b j (j + k)) = k"
    using assms(5,6) by (simp add: slice_def)
  have "common (slice a alo i) (slice b blo j)
        + (common (slice b j (j + k)) (slice b j (j + k))
           + common (slice a (i + k) ahi) (slice b (j + k) bhi))
        \<le> common (slice a alo i @ slice b j (j + k) @ slice a (i + k) ahi)
                  (slice b blo j @ slice b j (j + k) @ slice b (j + k) bhi)"
    using common_append [of "slice a alo i" "slice b blo j"
        "slice b j (j + k) @ slice a (i + k) ahi" "slice b j (j + k) @ slice b (j + k) bhi"]
      common_append [of "slice b j (j + k)" "slice b j (j + k)"
        "slice a (i + k) ahi" "slice b (j + k) bhi"]
    by linarith
  then show ?thesis
    by (simp add: sa sb eq common_same len)
qed

definition queue_ok :: "string \<Rightarrow> string \<Rightarrow> (nat \<times> nat \<times> nat \<times> nat) list \<Rightarrow> bool" where
  "queue_ok a b queue =
     (\<forall>(alo, ahi, blo, bhi) \<in> set queue. alo \<le> ahi \<and> ahi \<le> length a \<and> blo \<le> bhi \<and> bhi \<le> length b)"

definition queue_common :: "string \<Rightarrow> string \<Rightarrow> (nat \<times> nat \<times> nat \<times> nat) list \<Rightarrow> nat" where
  "queue_common a b queue =
     sum_list (map (\<lambda>(alo, ahi, blo, bhi). common (slice a alo ahi) (slice b blo bhi)) queue)"

lemma matching_blocks_loop_common:
  "b2j_sound b b2j \<Longrightarrow> queue_ok a b queue \<Longrightarrow>
   sum_list (map block_size (matching_blocks_loop bjunk b2j a b queue blocks))
   \<le> sum_list (map block_size blocks) + queue_common a b queue"
proof (induction bjunk b2j a b queue blocks rule: matching_blocks_loop.induct)
  case (1 bjunk b2j a b matching_blocks)
  then show ?case by simp
next
  case (2 bjunk b2j a b alo ahi blo bhi queue matching_blocks)
  obtain i j k where flm: "find_longest_match bjunk b2j a b alo ahi blo bhi = (i, j, k)"
    by (cases "find_longest_match bjunk b2j a b alo ahi blo bhi")
  note sound = 2(3)
  from 2(4) have top: "alo \<le> ahi" "ahi \<le> length a" "blo \<le> bhi" "bhi \<le> length b"
    and rest: "queue_ok a b queue"
    by (simp_all add: queue_ok_def)
  show ?case
  proof (cases "k = 0")
    case True
    with 2(2) [OF flm [symmetric] refl _ sound rest]
    have "sum_list (map block_size (matching_blocks_loop bjunk b2j a b queue matching_blocks))
          \<le> sum_list (map block_size matching_blocks) + queue_common a b queue"
      by simp
    with True flm show ?thesis by (simp add: queue_common_def)
  next
    case False
    let ?right = "if i + k < ahi \<and> j + k < bhi then [(i + k, ahi, j + k, bhi)] else []"
    let ?left = "if alo < i \<and> blo < j then [(alo, i, blo, j)] else []"
    from find_longest_match_size [OF flm False]
    have bounds: "alo \<le> i" "i + k \<le> ahi" "blo \<le> j" "j + k \<le> bhi" by simp_all
    from find_longest_match_match [OF sound, of a bjunk alo ahi blo bhi, unfolded flm]
    have match: "\<forall>t<k. a ! (i + t) = b ! (j + t)" by (simp add: best_match_def)
    have ok: "queue_ok a b (?right @ ?left @ queue)"
      using rest top bounds by (auto simp: queue_ok_def)
    from 2(1) [OF flm [symmetric] refl False sound ok]
    have ih: "sum_list (map block_size (matching_blocks_loop bjunk b2j a b (?right @ ?left @ queue)
                 (matching_blocks @ [(i, j, k)])))
          \<le> sum_list (map block_size (matching_blocks @ [(i, j, k)]))
             + queue_common a b (?right @ ?left @ queue)" .
    have "queue_common a b (?right @ ?left @ queue)
          \<le> common (slice a (i + k) ahi) (slice b (j + k) bhi)
             + common (slice a alo i) (slice b blo j) + queue_common a b queue"
      by (simp add: queue_common_def)
    moreover from common_block [OF bounds(1,2) top(2) bounds(3,4) top(4) match]
    have "common (slice a alo i) (slice b blo j) + k
         + common (slice a (i + k) ahi) (slice b (j + k) bhi)
         \<le> common (slice a alo ahi) (slice b blo bhi)" .
    ultimately have "sum_list (map block_size (matching_blocks @ [(i, j, k)]))
             + queue_common a b (?right @ ?left @ queue)
          \<le> sum_list (map block_size matching_blocks)
             + queue_common a b ((alo, ahi, blo, bhi) # queue)"
      by (simp add: queue_common_def block_size_def)
    with ih False flm show ?thesis by simp
  qed
qed

lemma collapse_loop_sum:
  "sum_list (map block_size (collapse_loop cur non_adjacent blocks))
   = sum_list (map block_size non_adjacent) + block_size cur + sum_list (map block_size blocks)"
  by (induction cur non_adjacent blocks rule: collapse_loop.induct)
    (auto simp: block_size_def)

lemma sum_list_sort: "sum_list (map f (sort xs)) = sum_list (map (f :: 'a :: linorder \<Rightarrow> nat) xs)"
proof -
  have "mset (map f (sort xs)) = mset (map f xs)" by simp
  then show ?thesis by (metis sum_mset_sum_list)
qed

lemma matches_le_common:
  "sum_list (map block_size (get_matching_blocks {} (chain_b b) a b)) \<le> common a b"
proof -
  let ?blocks = "matching_blocks_loop {} (chain_b b) a b [(0, length a, 0, length b)] []"
  have "queue_ok a b [(0, length a, 0, length b)]" by (simp add: queue_ok_def)
  from matching_blocks_loop_common [OF chain_b_sound this, of "{}" "[]"]
  have "sum_list (map block_size ?blocks) \<le> common a b"
    by (simp add: queue_common_def slice_def)
  then show ?thesis
    by (simp add: get_matching_blocks_def Let_def collapse_loop_sum sum_list_sort block_size_def)
qed

section \<open>\<open>quick_ratio\<close> counts the common characters\<close>

lemma get0_upd: "get0 (m(k \<mapsto> v)) k' = (if k' = k then v else get0 m k')"
  by (simp add: get0_def)

lemma fullbcount_loop_count:
  "get0 (fullbcount_loop m s) elt = get0 m elt + int (count (mset s) elt)"
proof (induction s arbitrary: m)
  case Nil
  then show ?case by simp
next
  case (Cons x s)
  have "get0 (fullbcount_loop (m(x \<mapsto> get0 m x + 1)) s) elt
        = get0 (m(x \<mapsto> get0 m x + 1)) elt + int (count (mset s) elt)"
    by (rule Cons.IH)
  then show ?case by (simp add: get0_upd)
qed

lemma quick_ratio_loop_common:
  assumes "\<forall>elt. (case avail elt of Some n \<Rightarrow> n | None \<Rightarrow> get0 fbc elt)
                 = int (count B elt) - int (count P elt)"
  shows "quick_ratio_loop fbc avail matches rest + size (P \<inter># B)
         = matches + size ((P + mset rest) \<inter># B)"
  using assms
proof (induction rest arbitrary: avail matches P)
  case Nil
  then show ?case by simp
next
  case (Cons x rest)
  define numb where "numb = (case avail x of Some n \<Rightarrow> n | None \<Rightarrow> get0 fbc x)"
  from Cons.prems have numb: "numb = int (count B x) - int (count P x)"
    by (simp add: numb_def)
  define avail' where "avail' = avail(x \<mapsto> numb - 1)"
  define matches' where "matches' = (if numb > 0 then matches + 1 else matches)"
  have inv: "\<forall>elt. (case avail' elt of Some n \<Rightarrow> n | None \<Rightarrow> get0 fbc elt)
                 = int (count B elt) - int (count (P + {#x#}) elt)"
    using Cons.prems numb by (auto simp: avail'_def)
  from Cons.IH [OF inv, of matches']
  have ih: "quick_ratio_loop fbc avail' matches' rest + size ((P + {#x#}) \<inter># B)
            = matches' + size ((P + {#x#} + mset rest) \<inter># B)" .
  have step: "size ((P + {#x#}) \<inter># B) + matches = size (P \<inter># B) + matches'"
  proof (cases "numb > 0")
    case True
    with numb have "count P x < count B x" by simp
    then have "(P + {#x#}) \<inter># B = (P \<inter># B) + {#x#}"
      by (auto simp: multiset_eq_iff)
    with True show ?thesis by (simp add: matches'_def)
  next
    case False
    with numb have "count B x \<le> count P x" by simp
    then have "(P + {#x#}) \<inter># B = P \<inter># B"
      by (auto simp: multiset_eq_iff)
    with False show ?thesis by (simp add: matches'_def)
  qed
  have unfold: "quick_ratio_loop fbc avail matches (x # rest) = quick_ratio_loop fbc avail' matches' rest"
    by (simp add: numb_def avail'_def matches'_def Let_def)
  have eq: "P + {#x#} + mset rest = P + mset (x # rest)" by simp
  from ih [unfolded eq] step show ?case
    unfolding unfold by linarith
qed

lemma quick_ratio_loop_eq:
  "quick_ratio_loop (fullbcount_loop Map.empty b) Map.empty 0 a = common a b"
proof -
  have "get0 (fullbcount_loop Map.empty b) elt = int (count (mset b) elt)" for elt
    using fullbcount_loop_count [of Map.empty b elt] by (simp add: get0_def)
  then have "\<forall>elt. (case Map.empty elt of Some n \<Rightarrow> n | None \<Rightarrow> get0 (fullbcount_loop Map.empty b) elt)
             = int (count (mset b) elt) - int (count {#} elt)"
    by simp
  from quick_ratio_loop_common [OF this, of 0 a] show ?thesis
    by (simp add: common_def)
qed

section \<open>The two quick ratios are upper bounds\<close>

lemma calculate_ratio_mono: "m \<le> n \<Longrightarrow> calculate_ratio m len \<le> calculate_ratio n len"
  by (simp add: calculate_ratio_def divide_right_mono)

lemma ratio_le_quick_ratio: "ratio a b \<le> quick_ratio a b"
  by (simp add: ratio_def quick_ratio_def quick_ratio_loop_eq calculate_ratio_mono matches_le_common)

lemma quick_ratio_le_real_quick_ratio: "quick_ratio a b \<le> real_quick_ratio a b"
  unfolding real_quick_ratio_def quick_ratio_def quick_ratio_loop_eq
  by (intro calculate_ratio_mono common_le)

section \<open>\<open>get_close_matches\<close>\<close>

lemma passes_iff:
  "(real_quick_ratio x word \<ge> cutoff \<and> quick_ratio x word \<ge> cutoff \<and> ratio x word \<ge> cutoff)
   \<longleftrightarrow> ratio x word \<ge> cutoff"
  using ratio_le_quick_ratio [of x word] quick_ratio_le_real_quick_ratio [of x word]
  by auto

lemma close_matches_loop_eq:
  "close_matches_loop word cutoff ps result
   = result @ map (\<lambda>x. (ratio x word, x)) (filter (\<lambda>x. cutoff \<le> ratio x word) ps)"
proof (induction ps arbitrary: result)
  case Nil
  then show ?case by simp
next
  case (Cons x ps)
  show ?case
    unfolding close_matches_loop.simps passes_iff Cons.IH by simp
qed

lemma nlargest_ranked:
  fixes f :: "'a \<Rightarrow> 'b :: linorder"
  assumes "distinct qs" and "inj_on f (set qs)" and "\<forall>x \<in> set qs. g (f x) = x"
  shows "distinct (map g (nlargest n (map f qs)))
       \<and> set (map g (nlargest n (map f qs))) \<subseteq> set qs
       \<and> length (map g (nlargest n (map f qs))) = min (nat n) (length qs)
       \<and> sorted_wrt (\<lambda>x y. f y < f x) (map g (nlargest n (map f qs)))
       \<and> (\<forall>k \<in> set qs - set (map g (nlargest n (map f qs))).
            \<forall>x \<in> set (map g (nlargest n (map f qs))). f k < f x)"
proof -
  define S where "S = rev (sort (map f qs))"
  define T where "T = take (nat n) S"
  define D where "D = drop (nat n) S"
  define xs where "xs = map g T"
  have xs: "map g (nlargest n (map f qs)) = xs"
    by (simp add: xs_def T_def S_def nlargest_def)
  have setS: "set S = f ` set qs" by (simp add: S_def)
  have distS: "distinct S"
    using assms(1,2) by (simp add: S_def distinct_map)
  have "sorted_wrt (<) (sort (map f qs))"
    using assms(1,2) by (simp add: strict_sorted_iff distinct_map)
  then have sortedS: "sorted_wrt (\<lambda>p q. q < p) S"
    by (simp add: S_def sorted_wrt_rev)
  have split: "S = T @ D" by (simp add: T_def D_def)
  have Tsub: "set T \<subseteq> f ` set qs"
    using setS set_take_subset [of "nat n" S] by (auto simp: T_def)
  have fg: "f (g p) = p" if "p \<in> set T" for p
    using that Tsub assms(3) by auto
  then have T: "map f xs = T"
    by (simp add: xs_def map_idI)
  have distT: "distinct T" using distS by (simp add: T_def)
  have c1: "distinct xs"
    using distT T by (metis distinct_map)
  have c2: "set xs \<subseteq> set qs"
    using Tsub assms(3) by (auto simp: xs_def)
  have c3: "length xs = min (nat n) (length qs)"
    by (simp add: xs_def T_def S_def min.commute)
  from sortedS split have "sorted_wrt (\<lambda>p q. q < p) (map f xs)"
    by (simp add: T sorted_wrt_append)
  then have c4: "sorted_wrt (\<lambda>x y. f y < f x) xs"
    by (simp add: sorted_wrt_map)
  have c5: "f k < f x" if k: "k \<in> set qs - set xs" and x: "x \<in> set xs" for k x
  proof -
    from k have "f k \<in> set S" by (simp add: setS)
    moreover have "f k \<notin> set T"
    proof
      assume "f k \<in> set T"
      then have "f k \<in> f ` set xs" using T by (metis set_map)
      then obtain y where y: "y \<in> set xs" "f k = f y" by auto
      with c2 k assms(2) have "k = y" by (auto dest: inj_onD)
      with y k show False by simp
    qed
    ultimately have "f k \<in> set D" using split by auto
    moreover from x have "f x \<in> set T" using T by (metis image_eqI set_map)
    ultimately show ?thesis
      using sortedS split by (auto simp: sorted_wrt_append)
  qed
  from c1 c2 c3 c4 c5 show ?thesis
    unfolding xs by blast
qed

lemma get_close_matches_ranked:
  assumes "0 < n" and "0 \<le> cutoff" and "cutoff \<le> 1" and "distinct ps"
  shows "\<exists>xs. get_close_matches word ps n cutoff = Inr xs
       \<and> distinct xs
       \<and> set xs \<subseteq> {x \<in> set ps. cutoff \<le> ratio x word}
       \<and> length xs = min (nat n) (card {x \<in> set ps. cutoff \<le> ratio x word})
       \<and> sorted_wrt (\<lambda>x y. (ratio y word, y) < (ratio x word, x)) xs
       \<and> (\<forall>k \<in> {x \<in> set ps. cutoff \<le> ratio x word} - set xs.
            \<forall>x \<in> set xs. (ratio k word, k) < (ratio x word, x))"
proof -
  define qs where "qs = filter (\<lambda>x. cutoff \<le> ratio x word) ps"
  define f where "f = (\<lambda>x. (ratio x word, x))"
  have res: "get_close_matches word ps n cutoff = Inr (map snd (nlargest n (map f qs)))"
    using assms(1-3) by (simp add: get_close_matches_def close_matches_loop_eq qs_def f_def)
  have d: "distinct qs" using assms(4) by (simp add: qs_def)
  have i: "inj_on f (set qs)" by (auto simp: inj_on_def f_def)
  have g: "\<forall>x \<in> set qs. snd (f x) = x" by (simp add: f_def)
  have s: "set qs = {x \<in> set ps. cutoff \<le> ratio x word}" by (auto simp: qs_def)
  have l: "length qs = card {x \<in> set ps. cutoff \<le> ratio x word}"
    using d s by (metis distinct_card)
  from nlargest_ranked [OF d i g, of n] res show ?thesis
    unfolding s l f_def by simp
qed


section \<open>Suggestions\<close>

text \<open>
  C2, as the specification states it, fails in two ways. The keys \<open>abc\<close> and \<open>abd\<close> have the
  same ratio to the query \<open>ab\<close>, and \<open>suggest\<close> returns \<open>abd\<close> before \<open>abc\<close>, against the
  order of the keys: the pairs of score and word are sorted in reverse, so among equal scores
  the larger word comes first. And with \<open>max_results = 0\<close> the result is not the empty list:
  \<open>get_close_matches\<close> raises \<open>ValueError\<close>.
\<close>

theorem suggest_ties_counterexample:
  "ratio ''abc'' ''ab'' = ratio ''abd'' ''ab''
   \<and> suggest \<lparr>data = [(''abc'', ''first''), (''abd'', ''second'')]\<rparr> ''ab'' 5 = Inr [''abd'', ''abc'']
   \<and> suggest \<lparr>data = [(''abc'', ''first''), (''abd'', ''second'')]\<rparr> ''ab'' 0 = Inl ValueError"
  by code_simp

text \<open>
  C2, amended. For a positive \<open>max_results\<close>, \<open>suggest\<close> returns normally a list without
  repetition of keys whose ratio to the query is at least 0.4; the list has \<open>max_results\<close>
  elements, or all such keys when there are fewer; it is in descending order of ratio, keys of
  equal ratio in descending order of the keys themselves; and every such key that is left out
  comes after every key of the list in that order. With no key at all the result is empty. For
  \<open>max_results \<le> 0\<close>, \<open>suggest\<close> raises \<open>ValueError\<close>. The query \<open>exampl\<close> against the keys
  \<open>example\<close>, \<open>function\<close>, \<open>cache\<close> gives \<open>example\<close> alone, and the query \<open>zzzzz\<close> against
  the built-in dictionary gives nothing.
\<close>

theorem suggest_ranked:
  assumes "wf_dict (data self)"
  shows "(max_results \<le> 0 \<longrightarrow> suggest self query max_results = Inl ValueError)
       \<and> (0 < max_results \<longrightarrow>
            (\<exists>xs. suggest self query max_results = Inr xs
               \<and> distinct xs
               \<and> set xs \<subseteq> {k \<in> set (dict_keys (data self)). 2 / 5 \<le> ratio k query}
               \<and> length xs = min (nat max_results)
                                (card {k \<in> set (dict_keys (data self)). 2 / 5 \<le> ratio k query})
               \<and> sorted_wrt (\<lambda>x y. (ratio y query, y) < (ratio x query, x)) xs
               \<and> (\<forall>k \<in> {k \<in> set (dict_keys (data self)). 2 / 5 \<le> ratio k query} - set xs.
                    \<forall>x \<in> set xs. (ratio k query, k) < (ratio x query, x))))
       \<and> (0 < max_results \<longrightarrow> suggest \<lparr>data = []\<rparr> query max_results = Inr [])
       \<and> suggest \<lparr>data = [(''example'', d1), (''function'', d2), (''cache'', d3)]\<rparr> ''exampl'' 5
           = Inr [''example'']
       \<and> suggest \<lparr>data = BUILT_IN_DICT\<rparr> ''zzzzz'' 5 = Inr []"
proof -
  have neg: "max_results \<le> 0 \<longrightarrow> suggest self query max_results = Inl ValueError"
    by (simp add: suggest_def get_close_matches_def)
  have pos: "0 < max_results \<longrightarrow>
            (\<exists>xs. suggest self query max_results = Inr xs
               \<and> distinct xs
               \<and> set xs \<subseteq> {k \<in> set (dict_keys (data self)). 2 / 5 \<le> ratio k query}
               \<and> length xs = min (nat max_results)
                                (card {k \<in> set (dict_keys (data self)). 2 / 5 \<le> ratio k query})
               \<and> sorted_wrt (\<lambda>x y. (ratio y query, y) < (ratio x query, x)) xs
               \<and> (\<forall>k \<in> {k \<in> set (dict_keys (data self)). 2 / 5 \<le> ratio k query} - set xs.
                    \<forall>x \<in> set xs. (ratio k query, k) < (ratio x query, x)))"
  proof
    assume n: "0 < max_results"
    have c: "(0 :: rat) \<le> 2 / 5" "(2 :: rat) / 5 \<le> 1" by simp_all
    from assms have d: "distinct (dict_keys (data self))"
      by (simp add: wf_dict_def dict_keys_def)
    from get_close_matches_ranked [OF n c d, of query]
    show "\<exists>xs. suggest self query max_results = Inr xs
               \<and> distinct xs
               \<and> set xs \<subseteq> {k \<in> set (dict_keys (data self)). 2 / 5 \<le> ratio k query}
               \<and> length xs = min (nat max_results)
                                (card {k \<in> set (dict_keys (data self)). 2 / 5 \<le> ratio k query})
               \<and> sorted_wrt (\<lambda>x y. (ratio y query, y) < (ratio x query, x)) xs
               \<and> (\<forall>k \<in> {k \<in> set (dict_keys (data self)). 2 / 5 \<le> ratio k query} - set xs.
                    \<forall>x \<in> set xs. (ratio k query, k) < (ratio x query, x))"
      by (simp add: suggest_def Let_def)
  qed
  have none: "0 < max_results \<longrightarrow> suggest \<lparr>data = []\<rparr> query max_results = Inr []"
    by (simp add: suggest_def get_close_matches_def dict_keys_def nlargest_def)
  have keys: "dict_keys [(''example'', d1), (''function'', d2), (''cache'', d3)]
              = [''example'', ''function'', ''cache'']"
    by (simp add: dict_keys_def)
  have "get_close_matches ''exampl'' [''example'', ''function'', ''cache''] 5 (2 / 5) = Inr [''example'']"
    by code_simp
  then have ex: "suggest \<lparr>data = [(''example'', d1), (''function'', d2), (''cache'', d3)]\<rparr> ''exampl'' 5
           = Inr [''example'']"
    by (simp add: suggest_def keys)
  have zz: "suggest \<lparr>data = BUILT_IN_DICT\<rparr> ''zzzzz'' 5 = Inr []"
    by code_simp
  from neg pos none ex zz show ?thesis by blast
qed

theorem suggest_ranked_witness:
  "wf_dict (data \<lparr>data = [(''abc'', ''first''), (''abd'', ''second''), (''xyz'', ''third'')]\<rparr>)
   \<and> suggest \<lparr>data = [(''abc'', ''first''), (''abd'', ''second''), (''xyz'', ''third'')]\<rparr> ''ab'' 0
       = Inl ValueError
   \<and> suggest \<lparr>data = [(''abc'', ''first''), (''abd'', ''second''), (''xyz'', ''third'')]\<rparr> ''ab'' 5
       = Inr [''abd'', ''abc'']
   \<and> suggest \<lparr>data = [(''abc'', ''first''), (''abd'', ''second''), (''xyz'', ''third'')]\<rparr> ''ab'' 1
       = Inr [''abd'']
   \<and> (ratio ''abc'' ''ab'', ''abc'') < (ratio ''abd'' ''ab'', ''abd'')"
proof -
  let ?s = "\<lparr>data = [(''abc'', ''first''), (''abd'', ''second''), (''xyz'', ''third'')]\<rparr>"
  have wf: "wf_dict (data ?s)" by (simp add: wf_dict_def)
  have e5: "suggest ?s ''ab'' 5 = Inr [''abd'', ''abc'']" by code_simp
  have e1: "suggest ?s ''ab'' 1 = Inr [''abd'']" by code_simp
  from suggest_ranked [OF wf, of 0 "''ab''"] have e0: "suggest ?s ''ab'' 0 = Inl ValueError"
    by simp
  from suggest_ranked [OF wf, of 5 "''ab''"] e5
  have "sorted_wrt (\<lambda>x y. (ratio y ''ab'', y) < (ratio x ''ab'', x)) [''abd'', ''abc'']"
    by simp
  then have "(ratio ''abc'' ''ab'', ''abc'') < (ratio ''abd'' ''ab'', ''abd'')" by simp
  with wf e0 e5 e1 show ?thesis by blast
qed

end
